theory Spec2Isabelle
  imports Main "HOL-Library.Word"
begin

unbundle bit_operations_syntax

section \<open>Shared data\<close>

text \<open>
  Go's \<open>[]byte\<close> is a list of 8-bit words, \<open>int64\<close> a 64-bit word read in two's
  complement (\<open>sint\<close>), a Go \<open>string\<close> a list of characters. The package-level error
  values of the service are the constructors of \<open>error\<close>; \<open>ErrOther\<close> stands for an
  error value that comes from a collaborator outside the sources (storage, authorization,
  the standard library).
\<close>

type_synonym bytes = "8 word list"
type_synonym int64 = "64 word"

datatype error =
    ErrInvalidTreeRange
  | ErrInvalidRequest
  | ErrNoSuchKey
  | ErrOther string

section \<open>The KV substrate\<close>

text \<open>
  A \<open>KeyReader\<close> answers \<open>Get(bucket, key, value)\<close>: an error, or the message read
  into \<open>value\<close>. The comments of batch_mutator.go fix \<open>ErrNoSuchKey\<close> for an absent key.
\<close>

type_synonym 'v KeyReader = "bytes \<Rightarrow> bytes \<Rightarrow> error + 'v"

text \<open>
  A \<open>KeyWriter\<close> is an object with hidden contents \<open>'kv\<close> and the two methods
  \<open>Get\<close> and \<open>Set\<close>; \<open>Set\<close> returns the new contents and its error.
\<close>

record ('kv, 'v) KeyWriter =
  kwGet :: "'kv \<Rightarrow> 'v KeyReader"
  kwSet :: "'kv \<Rightarrow> bytes \<Rightarrow> bytes \<Rightarrow> 'v \<Rightarrow> 'kv \<times> error option"

text \<open>
  Modelled from the spec: \<open>ExecuteReadOnly(ns, body)\<close> of the KV substrate, whose
  implementation is not in the sources. The body receives the namespace's
  \<open>KeyReader\<close>; its failure surfaces to the caller and there are no other effects.
\<close>

definition ExecuteReadOnly :: "(bytes \<Rightarrow> 'kr) \<Rightarrow> bytes \<Rightarrow> ('kr \<Rightarrow> error + 'a) \<Rightarrow> error + 'a" where
  "ExecuteReadOnly rd nsp body = body (rd nsp)"

text \<open>
  Modelled from the spec: \<open>ExecuteUpdate(ns, body)\<close> of the KV substrate, whose
  implementation is not in the sources. The database maps a namespace to its contents;
  on a clean return of the body all its writes become visible, on any failure all of
  them are discarded.
\<close>

definition ExecuteUpdate ::
  "(bytes \<Rightarrow> 'kv) \<Rightarrow> bytes \<Rightarrow> ('kv \<Rightarrow> 'kv \<times> error option) \<Rightarrow> (bytes \<Rightarrow> 'kv) \<times> error option" where
  "ExecuteUpdate store nsp body =
     (case body (store nsp) of
        (kv', None) \<Rightarrow> (store(nsp := kv'), None)
      | (_, Some err) \<Rightarrow> (store, Some err))"

text \<open>
  A function that is handed a \<open>KeyWriter\<close> and is itself not in the sources
  (\<open>ApplyMutation\<close>, \<open>writeObjectSize\<close>) can act on it through \<open>Get\<close> and \<open>Set\<close>
  only. What such a function does is a tree of calls: it returns, or it calls a method
  and goes on with the answer.
\<close>

datatype ('v, 'r) kwprog =
    Return 'r
  | CallGet bytes bytes "error + 'v \<Rightarrow> ('v, 'r) kwprog"
  | CallSet bytes bytes 'v "error option \<Rightarrow> ('v, 'r) kwprog"

primrec run_on_writer :: "('kv, 'v) KeyWriter \<Rightarrow> ('v, 'r) kwprog \<Rightarrow> 'kv \<Rightarrow> 'kv \<times> 'r" where
  "run_on_writer W (Return r) kv = (kv, r)"
| "run_on_writer W (CallGet bucket key cont) kv = run_on_writer W (cont (kwGet W kv bucket key)) kv"
| "run_on_writer W (CallSet bucket key val cont) kv =
     (case kwSet W kv bucket key val of (kv', err) \<Rightarrow> run_on_writer W (cont err) kv')"

section \<open>Definitions: LogTreeHash (service_log_tree_hash.go)\<close>

text \<open>
  \<open>pb.LogType\<close>: the sources name \<open>STRUCT_TYPE_LOG\<close> only; every other kind of the
  enumeration is \<open>STRUCT_TYPE_OTHER n\<close>. The \<open>Log\<close> field of a request is a pointer
  in Go; the model has well-formed requests only, where it is not nil.
\<close>

datatype LogType = STRUCT_TYPE_LOG | STRUCT_TYPE_OTHER nat

record LogRef =
  Name :: string
  LogType :: LogType

record LogTreeHashRequest =
  Log :: LogRef
  TreeSize :: int64

record LogTreeHashResponse =
  rTreeSize :: int64
  RootHash :: bytes

datatype operation = operationReadHash

text \<open>
  The receiver \<open>s\<close> of \<open>LogTreeHash\<close> together with the helpers the function calls.
  None of them is defined in the sources, so each is a field: the result of the access
  check, \<open>logBucket\<close>, the \<open>KeyReader\<close> that \<open>s.Reader\<close> hands to the body of a
  read-only scope on a namespace, and the two lookups made through that reader.
\<close>

record 'kr localServiceImpl =
  verifyAccessForLogOperation :: "LogRef \<Rightarrow> operation \<Rightarrow> error option"
  logBucket :: "LogRef \<Rightarrow> error + bytes"
  Reader :: "bytes \<Rightarrow> 'kr"
  lookupLogTreeHead :: "'kr \<Rightarrow> LogType \<Rightarrow> error + LogTreeHashResponse"
  lookupLogRootHashBySize :: "'kr \<Rightarrow> LogType \<Rightarrow> int64 \<Rightarrow> error + bytes"

text \<open>
  \<open>LogTreeHash\<close>, branch by branch. The Go closure assigns \<open>rv\<close> and returns an error;
  here the body returns the sum of both.
\<close>

definition LogTreeHash :: "'kr localServiceImpl \<Rightarrow> LogTreeHashRequest \<Rightarrow> error + LogTreeHashResponse" where
  "LogTreeHash s req =
     (case verifyAccessForLogOperation s (Log req) operationReadHash of
        Some err \<Rightarrow> Inl err
      | None \<Rightarrow>
          if sint (TreeSize req) < 0 then Inl ErrInvalidTreeRange
          else (case logBucket s (Log req) of
                  Inl _ \<Rightarrow> Inl ErrInvalidRequest
                | Inr nsp \<Rightarrow>
                    ExecuteReadOnly (Reader s) nsp (\<lambda>kr.
                      case lookupLogTreeHead s kr (LogType (Log req)) of
                        Inl err \<Rightarrow> Inl err
                      | Inr head \<Rightarrow>
                          if TreeSize req = 0 \<or> TreeSize req = rTreeSize head then Inr head
                          else if sint (rTreeSize head) < sint (TreeSize req) then Inl ErrInvalidTreeRange
                          else (case lookupLogRootHashBySize s kr (LogType (Log req)) (TreeSize req) of
                                  Inl err \<Rightarrow> Inl err
                                | Inr mth \<Rightarrow> Inr \<lparr>rTreeSize = TreeSize req, RootHash = mth\<rparr>))))"

text \<open>
  A service over a log of three entries: every request is allowed, the namespace is the
  log's name as bytes, the head is \<open>(3, 0x11 ... 0x11)\<close> and the root hash stored for a
  smaller size \<open>n\<close> is \<open>n\<close> repeated 32 times.
\<close>

definition three_entry_head :: LogTreeHashResponse where
  "three_entry_head = \<lparr>rTreeSize = 3, RootHash = replicate 32 0x11\<rparr>"

definition three_entry_service :: "unit localServiceImpl" where
  "three_entry_service =
     \<lparr>verifyAccessForLogOperation = (\<lambda>_ _. None),
      logBucket = (\<lambda>l. Inr (map (\<lambda>c. of_nat (of_char c)) (Name l))),
      Reader = (\<lambda>_. ()),
      lookupLogTreeHead = (\<lambda>_ _. Inr three_entry_head),
      lookupLogRootHashBySize = (\<lambda>_ _ n. Inr (replicate 32 (ucast n)))\<rparr>"

definition plain_log :: LogRef where
  "plain_log = \<lparr>Name = ''audit'', LogType = STRUCT_TYPE_LOG\<rparr>"

section \<open>Definitions: the batch mutator (api/batch_mutator.go)\<close>

text \<open>
  The functions of the package and of the protobuf library that batch_mutator.go calls
  and the sources do not define: \<open>proto.Marshal\<close> and \<open>proto.Unmarshal\<close> on messages
  \<open>'v\<close>, \<open>ApplyMutation(kw, size, mut)\<close> with its result \<open>(int64, error)\<close>,
  \<open>readObjectSize(kr)\<close> and \<open>writeObjectSize(kw, size)\<close>.
\<close>

record ('v, 'm) api =
  Marshal :: "'v \<Rightarrow> error + bytes"
  Unmarshal :: "bytes \<Rightarrow> error + 'v"
  ApplyMutation :: "int64 \<Rightarrow> 'm \<Rightarrow> ('v, error + int64) kwprog"
  readObjectSize :: "'v KeyReader \<Rightarrow> error + int64"
  writeObjectSize :: "int64 \<Rightarrow> ('v, error option) kwprog"

text \<open>\<open>hex.EncodeToString\<close>: two characters of \<open>hextable\<close> for each byte.\<close>

definition hextable :: string where
  "hextable = ''0123456789abcdef''"

definition EncodeToString :: "bytes \<Rightarrow> string" where
  "EncodeToString src =
     concat (map (\<lambda>v. [hextable ! unat (drop_bit 4 v), hextable ! unat (v AND 0x0f)]) src)"

record 'm chObject =
  ns :: bytes
  mut :: 'm

record 'v op =
  Key :: bytes
  Bucket :: bytes
  Value :: 'v

record 'v mapNoLockDB =
  M :: "string \<rightharpoonup> bytes"
  Parent :: "'v KeyReader"
  L :: "'v op list"

text \<open>The key of the overlay map: \<open>hex(bucket) + "|" + hex(key)\<close>.\<close>

definition overlay_key :: "bytes \<Rightarrow> bytes \<Rightarrow> string" where
  "overlay_key bucket key = EncodeToString bucket @ ''|'' @ EncodeToString key"

definition mapNoLockDB_Get :: "('v, 'm) api \<Rightarrow> 'v mapNoLockDB \<Rightarrow> 'v KeyReader" where
  "mapNoLockDB_Get a m bucket key =
     (let k = overlay_key bucket key
      in case M m k of
           Some b \<Rightarrow> Unmarshal a b
         | None \<Rightarrow> Parent m bucket key)"

definition mapNoLockDB_Set ::
  "('v, 'm) api \<Rightarrow> 'v mapNoLockDB \<Rightarrow> bytes \<Rightarrow> bytes \<Rightarrow> 'v \<Rightarrow> 'v mapNoLockDB \<times> error option" where
  "mapNoLockDB_Set a m bucket key val =
     (let k = overlay_key bucket key
      in case Marshal a val of
           Inl err \<Rightarrow> (m, Some err)
         | Inr b \<Rightarrow>
             (m\<lparr>M := (M m)(k \<mapsto> b),
                L := L m @ [\<lparr>Key = key, Bucket = bucket, Value = val\<rparr>]\<rparr>, None))"

text \<open>The overlay as the \<open>KeyWriter\<close> that \<open>handleBatch\<close> passes to \<open>ApplyMutation\<close>.\<close>

definition overlay_writer :: "('v, 'm) api \<Rightarrow> ('v mapNoLockDB, 'v) KeyWriter" where
  "overlay_writer a = \<lparr>kwGet = mapNoLockDB_Get a, kwSet = mapNoLockDB_Set a\<rparr>"

text \<open>
  \<open>consume\<close> creates the wrapper with an empty map and sets its parent at the start of
  the read-only scope, before any use.
\<close>

definition fresh_overlay :: "'v KeyReader \<Rightarrow> 'v mapNoLockDB" where
  "fresh_overlay kr = \<lparr>M = Map.empty, Parent = kr, L = []\<rparr>"

text \<open>
  The channel as the consumer sees it: the items in the order they were sent, and
  \<open>TimedOut\<close> wherever the timer of a \<open>select\<close> would fire before the next item
  arrives. The end of the list is the closed channel. A plain receive has no timer and
  waits through \<open>TimedOut\<close>.
\<close>

datatype 'm received = Item "'m chObject" | TimedOut

fun receive :: "'m received list \<Rightarrow> ('m chObject \<times> 'm received list) option" where
  "receive [] = None"
| "receive (TimedOut # ch) = receive ch"
| "receive (Item obj # ch) = Some (obj, ch)"

record BatchMutatorConfig =
  Timeout :: int
  BatchSize :: int
  BufferSize :: int

text \<open>
  \<open>QueueMutation\<close> sends the object on the channel and returns nil. (A full channel
  makes the sender wait; the wait is not part of the model.)
\<close>

definition QueueMutation :: "'m received list \<Rightarrow> bytes \<Rightarrow> 'm \<Rightarrow> 'm received list \<times> error option" where
  "QueueMutation ch nsp m = (ch @ [Item \<lparr>ns = nsp, mut = m\<rparr>], None)"

text \<open>
  The loop of \<open>handleBatch\<close>. The result is the returned triple \<open>(int64, *chObject,
  error)\<close> together with the wrapper and the channel as the loop leaves them. The
  counter \<open>cnt\<close> is a Go \<open>int\<close>; it is an unbounded integer here, since no channel
  holds the \<open>2 ^ 63\<close> items of one namespace that would make it wrap.
\<close>

fun handleBatch_loop ::
  "BatchMutatorConfig \<Rightarrow> ('v, 'm) api \<Rightarrow> 'm chObject \<Rightarrow> int \<Rightarrow> 'v mapNoLockDB \<Rightarrow> int64 \<Rightarrow> 'm chObject
     \<Rightarrow> 'm received list \<Rightarrow> (error + int64 \<times> 'm chObject option) \<times> 'v mapNoLockDB \<times> 'm received list" where
  "handleBatch_loop conf a seed cnt kw curSize obj ch =
     (if ns seed \<noteq> ns obj then (Inr (curSize, Some seed), kw, ch)
      else (case run_on_writer (overlay_writer a) (ApplyMutation a curSize (mut obj)) kw of
              (kw', Inl err) \<Rightarrow> (Inl err, kw', ch)
            | (kw', Inr curSize') \<Rightarrow>
                if cnt - 1 = 0 then (Inr (curSize', None), kw', ch)
                else (case ch of
                        [] \<Rightarrow> (Inr (curSize', None), kw', [])
                      | TimedOut # ch' \<Rightarrow> (Inr (curSize', None), kw', ch')
                      | Item obj' # ch' \<Rightarrow> handleBatch_loop conf a seed (cnt - 1) kw' curSize' obj' ch')))"

declare handleBatch_loop.simps [simp del]

definition handleBatch ::
  "BatchMutatorConfig \<Rightarrow> ('v, 'm) api \<Rightarrow> 'v mapNoLockDB \<Rightarrow> int64 \<Rightarrow> 'm chObject
     \<Rightarrow> 'm received list \<Rightarrow> (error + int64 \<times> 'm chObject option) \<times> 'v mapNoLockDB \<times> 'm received list" where
  "handleBatch conf a kw startSize seed ch =
     handleBatch_loop conf a seed (BatchSize conf) kw startSize seed ch"

text \<open>The body of the read-write scope: the loop over \<open>wrapper.L\<close>, then the size.\<close>

fun replay :: "('kv, 'v) KeyWriter \<Rightarrow> 'v op list \<Rightarrow> 'kv \<Rightarrow> 'kv \<times> error option" where
  "replay W [] kw = (kw, None)"
| "replay W (o1 # os) kw =
     (case kwSet W kw (Bucket o1) (Key o1) (Value o1) of
        (kw', Some err) \<Rightarrow> (kw', Some err)
      | (kw', None) \<Rightarrow> replay W os kw')"

definition save_out ::
  "('kv, 'v) KeyWriter \<Rightarrow> ('v, 'm) api \<Rightarrow> 'v op list \<Rightarrow> int64 \<Rightarrow> 'kv \<Rightarrow> 'kv \<times> error option" where
  "save_out W a ops nextSize kw =
     (case replay W ops kw of
        (kw', Some err) \<Rightarrow> (kw', Some err)
      | (kw', None) \<Rightarrow> run_on_writer W (writeObjectSize a nextSize) kw')"

text \<open>
  The body of the read-only scope. It sets \<open>startSize\<close>, \<open>nextSize\<close> and \<open>seed\<close>
  of \<open>consume\<close>, fills the wrapper and takes items off the channel.
\<close>

definition read_phase ::
  "BatchMutatorConfig \<Rightarrow> ('v, 'm) api \<Rightarrow> 'm chObject \<Rightarrow> 'm received list \<Rightarrow> 'v KeyReader
     \<Rightarrow> error + (int64 \<times> int64 \<times> 'm chObject option \<times> 'v mapNoLockDB \<times> 'm received list)" where
  "read_phase conf a seed ch kr =
     (case readObjectSize a kr of
        Inl err \<Rightarrow> Inl err
      | Inr startSize \<Rightarrow>
          (case handleBatch conf a (fresh_overlay kr) startSize seed ch of
             (Inl err, _, _) \<Rightarrow> Inl err
           | (Inr (nextSize, seed'), wrapper, ch') \<Rightarrow> Inr (startSize, nextSize, seed', wrapper, ch')))"

text \<open>
  What \<open>consume\<close> leaves behind: the database, the scopes it opened on the writer in
  order, and the error of \<open>log.Fatal\<close> if it ended the process.
\<close>

datatype scope = ReadOnlyScope bytes | ReadWriteScope bytes

record 'kv consumed =
  db :: "bytes \<Rightarrow> 'kv"
  scopes :: "scope list"
  fatal :: "error option"

text \<open>Each round of \<open>consume\<close> takes something off the channel or gives up a carried seed.\<close>

lemma handleBatch_loop_length:
  "handleBatch_loop conf a seed cnt kw curSize obj ch = (r, kw', ch') \<Longrightarrow> length ch' \<le> length ch"
proof (induction conf a seed cnt kw curSize obj ch rule: handleBatch_loop.induct)
  case (1 conf a seed cnt kw curSize obj ch)
  note p = "1.prems"(1) [unfolded handleBatch_loop.simps [of conf a seed cnt kw curSize obj ch]]
  show ?case
  proof (cases "ns seed \<noteq> ns obj")
    case True
    with p show ?thesis by simp
  next
    case same: False
    obtain kw1 r1 where run: "run_on_writer (overlay_writer a) (ApplyMutation a curSize (mut obj)) kw = (kw1, r1)"
      by (cases "run_on_writer (overlay_writer a) (ApplyMutation a curSize (mut obj)) kw")
    show ?thesis
    proof (cases r1)
      case (Inl err)
      with same run p show ?thesis by simp
    next
      case (Inr size1)
      show ?thesis
      proof (cases "cnt - 1 = 0")
        case True
        with same run Inr p show ?thesis by simp
      next
        case more: False
        show ?thesis
        proof (cases ch)
          case Nil
          with same run Inr more p show ?thesis by simp
        next
          case (Cons ev rest)
          show ?thesis
          proof (cases ev)
            case TimedOut
            with same run Inr more Cons p show ?thesis by auto
          next
            case (Item obj1)
            with same run Inr more Cons p
            have "handleBatch_loop conf a seed (cnt - 1) kw1 size1 obj1 rest = (r, kw', ch')"
              by simp
            with "1.IH" [OF same run [symmetric] Inr more Cons Item]
            have "length ch' \<le> length rest" by simp
            with Cons show ?thesis by simp
          qed
        qed
      qed
    qed
  qed
qed

lemma handleBatch_loop_seed:
  "handleBatch_loop conf a seed cnt kw curSize obj ch = (Inr (n, Some s), kw', ch')
     \<Longrightarrow> ns seed = ns obj \<Longrightarrow> length ch' < length ch"
proof (induction conf a seed cnt kw curSize obj ch rule: handleBatch_loop.induct)
  case (1 conf a seed cnt kw curSize obj ch)
  note p = "1.prems"(1) [unfolded handleBatch_loop.simps [of conf a seed cnt kw curSize obj ch]]
  note same = \<open>ns seed = ns obj\<close>
  obtain kw1 r1 where run: "run_on_writer (overlay_writer a) (ApplyMutation a curSize (mut obj)) kw = (kw1, r1)"
    by (cases "run_on_writer (overlay_writer a) (ApplyMutation a curSize (mut obj)) kw")
  show ?case
  proof (cases r1)
    case (Inl err)
    with same run p show ?thesis by simp
  next
    case (Inr size1)
    show ?thesis
    proof (cases "cnt - 1 = 0")
      case True
      with same run Inr p show ?thesis by simp
    next
      case more: False
      show ?thesis
      proof (cases ch)
        case Nil
        with same run Inr more p show ?thesis by simp
      next
        case (Cons ev rest)
        show ?thesis
        proof (cases ev)
          case TimedOut
          with same run Inr more Cons p show ?thesis by auto
        next
          case (Item obj1)
          with same run Inr more Cons p
          have rec: "handleBatch_loop conf a seed (cnt - 1) kw1 size1 obj1 rest = (Inr (n, Some s), kw', ch')"
            by simp
          then have "length ch' \<le> length rest" by (rule handleBatch_loop_length)
          with Cons show ?thesis by simp
        qed
      qed
    qed
  qed
qed

lemma receive_length: "receive ch = Some (obj, ch') \<Longrightarrow> length ch' < length ch"
  by (induction ch rule: receive.induct) (auto split: if_splits)

lemma read_phase_length:
  assumes "ExecuteReadOnly rd nsp (read_phase conf a seed1 ch1) = Inr (startSize, nextSize, seed2, wrapper, ch2)"
  shows "length ch2 \<le> length ch1" and "seed2 \<noteq> None \<Longrightarrow> length ch2 < length ch1"
proof -
  from assms obtain size0 where
    hb: "handleBatch_loop conf a seed1 (BatchSize conf) (fresh_overlay (rd nsp)) size0 seed1 ch1
           = (Inr (nextSize, seed2), wrapper, ch2)"
    by (auto simp: ExecuteReadOnly_def read_phase_def handleBatch_def split: sum.splits prod.splits)
  from hb show "length ch2 \<le> length ch1" by (rule handleBatch_loop_length)
  assume "seed2 \<noteq> None"
  then obtain s where "seed2 = Some s" by auto
  with hb show "length ch2 < length ch1" by (auto dest: handleBatch_loop_seed)
qed

lemma next_seed_length:
  assumes "(case seed of None \<Rightarrow> receive ch | Some s \<Rightarrow> Some (s, ch)) = Some (seed1, ch1)"
  shows "seed = None \<Longrightarrow> length ch1 < length ch" and "seed \<noteq> None \<Longrightarrow> ch1 = ch"
  using assms by (auto split: option.splits dest: receive_length)

lemma consume_measure:
  assumes "(case seed of None \<Rightarrow> receive ch | Some s \<Rightarrow> Some (s, ch)) = Some (seed1, ch1)"
    and "ExecuteReadOnly rd nsp (read_phase conf a seed1 ch1) = Inr (startSize, nextSize, seed2, wrapper, ch2)"
  shows "2 * length ch2 + (case seed2 of None \<Rightarrow> 0 | Some _ \<Rightarrow> 1)
           < 2 * length ch + (case seed of None \<Rightarrow> 0 | Some _ \<Rightarrow> (1::nat))"
proof -
  note a = next_seed_length [OF assms(1)] and b = read_phase_length [OF assms(2)]
  show ?thesis
  proof (cases seed)
    case None
    with a(1) b(1) show ?thesis by (cases seed2) auto
  next
    case (Some s0)
    with a(2) have "ch1 = ch" by simp
    with b Some show ?thesis by (cases seed2) auto
  qed
qed

text \<open>
  \<open>consume\<close>: take a seed unless one is carried over, run the batch inside a read-only
  scope, end the process on its error, save the writes out inside a read-write scope when
  the size grew, and go round again with the seed that \<open>handleBatch\<close> returned.
\<close>

function consume_loop ::
  "BatchMutatorConfig \<Rightarrow> ('kv, 'v) KeyWriter \<Rightarrow> ('v, 'm) api \<Rightarrow> 'm chObject option \<Rightarrow> 'm received list
     \<Rightarrow> 'kv consumed \<Rightarrow> 'kv consumed" where
  "consume_loop conf W a seed ch st =
     (case (case seed of None \<Rightarrow> receive ch | Some s \<Rightarrow> Some (s, ch)) of
        None \<Rightarrow> st
      | Some (seed1, ch1) \<Rightarrow>
          (case ExecuteReadOnly (\<lambda>nsp. kwGet W (db st nsp)) (ns seed1) (read_phase conf a seed1 ch1) of
             Inl err \<Rightarrow> st\<lparr>scopes := scopes st @ [ReadOnlyScope (ns seed1)], fatal := Some err\<rparr>
           | Inr (startSize, nextSize, seed2, wrapper, ch2) \<Rightarrow>
               if sint startSize < sint nextSize then
                 (case ExecuteUpdate (db st) (ns seed1) (save_out W a (L wrapper) nextSize) of
                    (db', Some err) \<Rightarrow>
                      st\<lparr>db := db',
                         scopes := scopes st @ [ReadOnlyScope (ns seed1), ReadWriteScope (ns seed1)],
                         fatal := Some err\<rparr>
                  | (db', None) \<Rightarrow>
                      consume_loop conf W a seed2 ch2
                        (st\<lparr>db := db',
                            scopes := scopes st @ [ReadOnlyScope (ns seed1), ReadWriteScope (ns seed1)]\<rparr>))
               else consume_loop conf W a seed2 ch2
                      (st\<lparr>scopes := scopes st @ [ReadOnlyScope (ns seed1)]\<rparr>)))"
  by pat_completeness auto
termination
  apply (relation "measure (\<lambda>(conf, W, a, seed, ch, st). 2 * length ch + (case seed of None \<Rightarrow> 0 | Some _ \<Rightarrow> 1))")
    apply simp
   apply clarsimp
   apply (erule (1) consume_measure)
  apply clarsimp
  apply (erule (1) consume_measure)
  done

declare consume_loop.simps [simp del]

definition consume ::
  "BatchMutatorConfig \<Rightarrow> ('kv, 'v) KeyWriter \<Rightarrow> ('v, 'm) api \<Rightarrow> 'm received list \<Rightarrow> (bytes \<Rightarrow> 'kv) \<Rightarrow> 'kv consumed" where
  "consume conf W a ch store = consume_loop conf W a None ch \<lparr>db = store, scopes = [], fatal = None\<rparr>"

text \<open>
  A batch as the overlay sees it: the \<open>Set\<close> calls made on a wrapper, in order. A call
  whose value does not marshal returns its error and leaves the wrapper as it was.
\<close>

definition apply_sets ::
  "('v, 'm) api \<Rightarrow> 'v mapNoLockDB \<Rightarrow> (bytes \<times> bytes \<times> 'v) list \<Rightarrow> 'v mapNoLockDB" where
  "apply_sets a m calls =
     foldl (\<lambda>m' (bucket, key, val). fst (mapNoLockDB_Set a m' bucket key val)) m calls"

definition accepted :: "('v, 'm) api \<Rightarrow> (bytes \<times> bytes \<times> 'v) list \<Rightarrow> (bytes \<times> bytes \<times> 'v) list" where
  "accepted a calls =
     filter (\<lambda>(bucket, key, val). case Marshal a val of Inr _ \<Rightarrow> True | Inl _ \<Rightarrow> False) calls"

text \<open>The value of the most recent call for a bucket and key, if there is one.\<close>

fun latest :: "(bytes \<times> bytes \<times> 'v) list \<Rightarrow> bytes \<Rightarrow> bytes \<Rightarrow> 'v option" where
  "latest [] bucket key = None"
| "latest ((b, k, v) # calls) bucket key =
     (case latest calls bucket key of
        Some w \<Rightarrow> Some w
      | None \<Rightarrow> if b = bucket \<and> k = key then Some v else None)"

text \<open>
  Modelled from the spec: a key-value writer of the substrate as a finite map in which
  \<open>Set\<close> overwrites (last write wins) and \<open>Get\<close> of an absent key is \<open>ErrNoSuchKey\<close>.
  The sources hold no implementation of \<open>KeyWriter\<close> besides the overlay.
\<close>

definition kv_put :: "(bytes \<times> bytes \<rightharpoonup> 'v) \<Rightarrow> 'v op \<Rightarrow> (bytes \<times> bytes \<rightharpoonup> 'v)" where
  "kv_put kv o1 = kv((Bucket o1, Key o1) \<mapsto> Value o1)"

definition map_writer :: "(bytes \<times> bytes \<rightharpoonup> 'v, 'v) KeyWriter" where
  "map_writer =
     \<lparr>kwGet = (\<lambda>kv bucket key. case kv (bucket, key) of None \<Rightarrow> Inl ErrNoSuchKey | Some v \<Rightarrow> Inr v),
      kwSet = (\<lambda>kv bucket key val. (kv((bucket, key) \<mapsto> val), None))\<rparr>"

text \<open>
  Modelled from the spec: a writer of the substrate that keeps every \<open>Set\<close> it receives,
  in order; \<open>Get\<close> answers with the latest value set. Its contents are the calls made
  on it.
\<close>

definition memory_writer :: "((bytes \<times> bytes \<times> bytes) list, bytes) KeyWriter" where
  "memory_writer =
     \<lparr>kwGet = (\<lambda>kv bucket key.
                 case find (\<lambda>(b, k, v). b = bucket \<and> k = key) (rev kv) of
                   None \<Rightarrow> Inl ErrNoSuchKey
                 | Some (b, k, v) \<Rightarrow> Inr v),
      kwSet = (\<lambda>kv bucket key val. (kv @ [(bucket, key, val)], None))\<rparr>"

section \<open>Definitions: the instant mutator (api/service.go)\<close>

record instancePromise =
  Err :: "error option"

definition WaitUntilDone :: "instancePromise \<Rightarrow> error option" where
  "WaitUntilDone i = Err i"

text \<open>
  \<open>InstantMutator.QueueMutation\<close>. In service.go \<open>ApplyMutation(kw, mut)\<close> takes no
  size and returns an error only; it is the parameter \<open>apply_mut\<close>. The result is the
  database after the call, the promise and the error, which is always nil.
\<close>

definition InstantMutator_QueueMutation ::
  "('kv, 'v) KeyWriter \<Rightarrow> ('m \<Rightarrow> ('v, error option) kwprog) \<Rightarrow> (bytes \<Rightarrow> 'kv) \<Rightarrow> bytes \<Rightarrow> 'm
     \<Rightarrow> (bytes \<Rightarrow> 'kv) \<times> instancePromise \<times> error option" where
  "InstantMutator_QueueMutation W apply_mut store nsp m =
     (case ExecuteUpdate store nsp (run_on_writer W (apply_mut m)) of
        (store', err) \<Rightarrow> (store', \<lparr>Err = err\<rparr>, None))"

section \<open>Definitions: LogCreate (unnamed/part_000)\<close>

record LogCreateRequest =
  cLog :: LogRef

datatype Mutation = Mutation_LogCreate LogCreateRequest

datatype Permission = PERM_LOG_CREATE

datatype LogCreateResponse = LogCreateResponse

text \<open>
  The receiver of \<open>LogCreate\<close>: the access check and the mutator behind the
  \<open>MutatorService\<close> interface, an object with hidden state \<open>'ms\<close> whose
  \<open>QueueMutation\<close> returns a promise or an error, and \<open>WaitUntilDone\<close> of its promises.
\<close>

record ('ms, 'p) LocalService =
  verifyAccessForLog :: "LogRef \<Rightarrow> Permission \<Rightarrow> error option"
  Mutator_QueueMutation :: "'ms \<Rightarrow> Mutation \<Rightarrow> 'ms \<times> (error + 'p)"
  Promise_WaitUntilDone :: "'p \<Rightarrow> error option"

definition LogCreate ::
  "('ms, 'p) LocalService \<Rightarrow> 'ms \<Rightarrow> LogCreateRequest \<Rightarrow> 'ms \<times> (error + LogCreateResponse)" where
  "LogCreate s ms req =
     (case verifyAccessForLog s (cLog req) PERM_LOG_CREATE of
        Some err \<Rightarrow> (ms, Inl err)
      | None \<Rightarrow>
          if LogType (cLog req) \<noteq> STRUCT_TYPE_LOG then (ms, Inl ErrInvalidRequest)
          else if length (Name (cLog req)) = 0 then (ms, Inl ErrInvalidRequest)
          else (case Mutator_QueueMutation s ms (Mutation_LogCreate req) of
                  (ms', Inl err) \<Rightarrow> (ms', Inl err)
                | (ms', Inr promise) \<Rightarrow>
                    (case Promise_WaitUntilDone s promise of
                       Some err \<Rightarrow> (ms', Inl err)
                     | None \<Rightarrow> (ms', Inr LogCreateResponse))))"

text \<open>
  A service that allows everything and whose mutator keeps the queued mutations and
  completes each at once, as the instant mutator's promise does.
\<close>

definition recording_service :: "(Mutation list, instancePromise) LocalService" where
  "recording_service =
     \<lparr>verifyAccessForLog = (\<lambda>_ _. None),
      Mutator_QueueMutation = (\<lambda>ms m. (ms @ [m], Inr \<lparr>Err = None\<rparr>)),
      Promise_WaitUntilDone = WaitUntilDone\<rparr>"

section \<open>Definitions: the map client (client/map.go)\<close>

text \<open>
  The functions of Go's standard library that map.go calls, as parameters:
  \<open>strconv.Atoi\<close>, \<open>hex.DecodeString\<close>, \<open>strings.TrimSpace\<close> and the \<open>%d\<close> of
  \<open>fmt.Sprintf\<close>.
\<close>

record go_lib =
  Atoi :: "string \<Rightarrow> error + int"
  DecodeString :: "string \<Rightarrow> error + bytes"
  TrimSpace :: "string \<Rightarrow> string"
  FormatInt :: "int \<Rightarrow> string"

text \<open>\<open>strings.Split(s, sep)\<close> for a separator of one character; \<open>Split("", sep)\<close> is \<open>[""]\<close>.\<close>

fun Split :: "string \<Rightarrow> char \<Rightarrow> string list" where
  "Split [] sep = [[]]"
| "Split (c # cs) sep =
     (if c = sep then [] # Split cs sep
      else (case Split cs sep of
              [] \<Rightarrow> [[c]]
            | p # ps \<Rightarrow> (c # p) # ps))"

text \<open>\<open>strings.SplitN(s, sep, 2)\<close>: cut at the first separator, if there is one.\<close>

definition SplitN2 :: "string \<Rightarrow> char \<Rightarrow> string list" where
  "SplitN2 s sep =
     (if sep \<in> set s then [takeWhile (\<lambda>c. c \<noteq> sep) s, tl (dropWhile (\<lambda>c. c \<noteq> sep) s)]
      else [s])"

text \<open>
  The outcome of a Go function that can also panic: \<open>prv[idx] = bs\<close> with a negative
  \<open>idx\<close> is an index out of range.
\<close>

datatype 'a outcome = Returned 'a | Failed error | Panicked

text \<open>
  An entry of the audit path is a \<open>[]byte\<close>; \<open>None\<close> is the nil slice that
  \<open>make([][]byte, 256)\<close> starts with.
\<close>

type_synonym audit_path = "bytes option list"

text \<open>The body of the inner loop of \<open>parseHeadersForProof\<close>, for one part \<open>commad\<close>.\<close>

definition parse_commad :: "go_lib \<Rightarrow> audit_path \<Rightarrow> string \<Rightarrow> audit_path outcome" where
  "parse_commad lib prv commad =
     (let bits = SplitN2 commad (CHR ''/'')
      in if length bits = 2 then
           (case Atoi lib (TrimSpace lib (bits ! 0)) of
              Inl err \<Rightarrow> Failed err
            | Inr idx \<Rightarrow>
                (case DecodeString lib (TrimSpace lib (bits ! 1)) of
                   Inl err \<Rightarrow> Failed err
                 | Inr bs \<Rightarrow>
                     if idx < 256 then
                       (if 0 \<le> idx \<and> nat idx < length prv then Returned (prv[nat idx := Some bs])
                        else Panicked)
                     else Returned prv))
         else Returned prv)"

fun parse_parts :: "go_lib \<Rightarrow> audit_path \<Rightarrow> string list \<Rightarrow> audit_path outcome" where
  "parse_parts lib prv [] = Returned prv"
| "parse_parts lib prv (commad # rest) =
     (case parse_commad lib prv commad of
        Returned prv' \<Rightarrow> parse_parts lib prv' rest
      | Failed err \<Rightarrow> Failed err
      | Panicked \<Rightarrow> Panicked)"

fun parse_headers :: "go_lib \<Rightarrow> audit_path \<Rightarrow> string list \<Rightarrow> audit_path outcome" where
  "parse_headers lib prv [] = Returned prv"
| "parse_headers lib prv (h # hs) =
     (case parse_parts lib prv (Split h (CHR '','')) of
        Returned prv' \<Rightarrow> parse_headers lib prv' hs
      | Failed err \<Rightarrow> Failed err
      | Panicked \<Rightarrow> Panicked)"

text \<open>
  \<open>http.Header\<close> maps a canonical name to its values. \<open>http.CanonicalHeaderKey\<close>
  leaves a name with a byte outside the token characters as it is; in any other name it
  makes the first letter and every letter after a hyphen upper case and the rest lower
  case.
\<close>

type_synonym Header = "string \<rightharpoonup> string list"

definition validHeaderFieldByte :: "char \<Rightarrow> bool" where
  "validHeaderFieldByte c =
     (let n = (of_char c :: nat)
      in (48 \<le> n \<and> n \<le> 57) \<or> (65 \<le> n \<and> n \<le> 90) \<or> (97 \<le> n \<and> n \<le> 122)
         \<or> n \<in> set [33, 35, 36, 37, 38, 39, 42, 43, 45, 46, 94, 95, 96, 124, 126])"

fun canonical_from :: "bool \<Rightarrow> string \<Rightarrow> string" where
  "canonical_from upper [] = []"
| "canonical_from upper (c # cs) =
     (let n = (of_char c :: nat);
          c' = (if upper \<and> 97 \<le> n \<and> n \<le> 122 then char_of (n - 32)
                else if \<not> upper \<and> 65 \<le> n \<and> n \<le> 90 then char_of (n + 32)
                else c)
      in c' # canonical_from (c' = CHR ''-'') cs)"

definition CanonicalHeaderKey :: "string \<Rightarrow> string" where
  "CanonicalHeaderKey s = (if list_all validHeaderFieldByte s then canonical_from True s else s)"

definition parseHeadersForProof :: "go_lib \<Rightarrow> Header \<Rightarrow> audit_path outcome" where
  "parseHeadersForProof lib headers =
     (let prv = replicate 256 None
      in case headers (CanonicalHeaderKey ''X-Verified-Proof'') of
           Some actualHeaders \<Rightarrow> parse_headers lib prv actualHeaders
         | None \<Rightarrow> Returned prv)"

text \<open>\<open>headers.Get(name)\<close>: the first value under the canonical name, or the empty string.\<close>

definition Header_Get :: "Header \<Rightarrow> string \<Rightarrow> string" where
  "Header_Get headers name =
     (case headers (CanonicalHeaderKey name) of
        None \<Rightarrow> []
      | Some [] \<Rightarrow> []
      | Some (v # _) \<Rightarrow> v)"

record 'e MapInclusionProof =
  pValue :: 'e
  pTreeSize :: int64
  AuditPath :: audit_path
  pKey :: bytes

record 'e VerifiableEntryFactory =
  Format :: string
  CreateFromBytes :: "bytes \<Rightarrow> error + 'e"

text \<open>
  \<open>verifiableMapImpl.Get\<close>. \<open>MakeRequest\<close> is the client's transport: it answers a
  method and a path with an error or with the body and the headers of the response.
\<close>

definition verifiableMapImpl_Get ::
  "go_lib \<Rightarrow> (string \<Rightarrow> string \<Rightarrow> error + bytes \<times> Header) \<Rightarrow> bytes \<Rightarrow> int64 \<Rightarrow> 'e VerifiableEntryFactory
     \<Rightarrow> 'e MapInclusionProof outcome" where
  "verifiableMapImpl_Get lib MakeRequest key treeSize factory =
     (case MakeRequest ''GET''
             (''/tree/'' @ FormatInt lib (sint treeSize) @ ''/key/h/'' @ EncodeToString key @ Format factory) of
        Inl err \<Rightarrow> Failed err
      | Inr (val, headers) \<Rightarrow>
          (case parseHeadersForProof lib headers of
             Failed err \<Rightarrow> Failed err
           | Panicked \<Rightarrow> Panicked
           | Returned prv \<Rightarrow>
               (case CreateFromBytes factory val of
                  Inl err \<Rightarrow> Failed err
                | Inr rv \<Rightarrow>
                    (case Atoi lib (Header_Get headers ''X-Verified-TreeSize'') of
                       Inl err \<Rightarrow> Failed err
                     | Inr vts \<Rightarrow>
                         Returned \<lparr>pValue = rv, pTreeSize = of_int vts, AuditPath = prv, pKey = key\<rparr>))))"

text \<open>The index and the bytes that a part of the header carries, when both parse.\<close>

definition entry_of :: "go_lib \<Rightarrow> string \<Rightarrow> (int \<times> bytes) option" where
  "entry_of lib commad =
     (let bits = SplitN2 commad (CHR ''/'')
      in if length bits = 2 then
           (case (Atoi lib (TrimSpace lib (bits ! 0)), DecodeString lib (TrimSpace lib (bits ! 1))) of
              (Inr idx, Inr bs) \<Rightarrow> Some (idx, bs)
            | _ \<Rightarrow> None)
         else None)"

definition header_parts :: "Header \<Rightarrow> string list" where
  "header_parts headers =
     (case headers (CanonicalHeaderKey ''X-Verified-Proof'') of
        None \<Rightarrow> []
      | Some actualHeaders \<Rightarrow> concat (map (\<lambda>h. Split h (CHR '','')) actualHeaders))"

text \<open>The start size, the final size and the replay list that a read-only scope leaves.\<close>

definition batch_writes ::
  "error + (int64 \<times> int64 \<times> 'm chObject option \<times> 'v mapNoLockDB \<times> 'm received list)
     \<Rightarrow> error + (int64 \<times> int64 \<times> 'v op list)" where
  "batch_writes r =
     (case r of
        Inl err \<Rightarrow> Inl err
      | Inr (startSize, nextSize, seed', wrapper, ch') \<Rightarrow> Inr (startSize, nextSize, L wrapper))"


text \<open>
  Applying the mutations of a list one after the other through the overlay, each at the
  size the one before returned, until one fails: the result is the first error, or the
  last size.
\<close>

fun apply_run ::
  "('v, 'm) api \<Rightarrow> 'v mapNoLockDB \<Rightarrow> int64 \<Rightarrow> 'm chObject list \<Rightarrow> (error + int64) \<times> 'v mapNoLockDB" where
  "apply_run a kw n [] = (Inr n, kw)"
| "apply_run a kw n (obj # objs) =
     (case run_on_writer (overlay_writer a) (ApplyMutation a n (mut obj)) kw of
        (kw', Inl err) \<Rightarrow> (Inl err, kw')
      | (kw', Inr n') \<Rightarrow> apply_run a kw' n' objs)"


section \<open>Definitions: concrete instances\<close>

text \<open>
  A small instance of the missing functions, to run the mutators on: messages are their
  own bytes, the size of a namespace is the byte stored under bucket 0, key 0.
  \<open>Append d\<close> stores \<open>d\<close> under the current size and grows the size by one,
  \<open>Annotate d\<close> stores \<open>d\<close> in a second bucket and leaves the size as it is,
  \<open>Reject\<close> fails.
\<close>

datatype demo_mutation = Append bytes | Annotate bytes | Reject

fun demo_apply :: "int64 \<Rightarrow> demo_mutation \<Rightarrow> (bytes, error + int64) kwprog" where
  "demo_apply n (Append d) =
     CallSet [1] [ucast n] d (\<lambda>e. Return (case e of Some err \<Rightarrow> Inl err | None \<Rightarrow> Inr (n + 1)))"
| "demo_apply n (Annotate d) =
     CallSet [2] [ucast n] d (\<lambda>e. Return (case e of Some err \<Rightarrow> Inl err | None \<Rightarrow> Inr n))"
| "demo_apply n Reject = Return (Inl ErrInvalidRequest)"

definition demo_size :: "error + bytes \<Rightarrow> error + int64" where
  "demo_size r =
     (case r of
        Inl ErrNoSuchKey \<Rightarrow> Inr 0
      | Inl err \<Rightarrow> Inl err
      | Inr v \<Rightarrow> Inr (case v of [] \<Rightarrow> 0 | b # _ \<Rightarrow> ucast b))"

definition demo_api :: "(bytes, demo_mutation) api" where
  "demo_api =
     \<lparr>Marshal = Inr,
      Unmarshal = Inr,
      ApplyMutation = demo_apply,
      readObjectSize = (\<lambda>kr. demo_size (kr [0] [0])),
      writeObjectSize = (\<lambda>n. CallSet [0] [0] [ucast n] Return)\<rparr>"

text \<open>The same mutations for the instant mutator, which reads and writes the size itself.\<close>

fun demo_apply_instant :: "demo_mutation \<Rightarrow> (bytes, error option) kwprog" where
  "demo_apply_instant (Append d) =
     CallGet [0] [0] (\<lambda>r.
       case demo_size r of
         Inl err \<Rightarrow> Return (Some err)
       | Inr n \<Rightarrow>
           CallSet [1] [ucast n] d (\<lambda>e.
             case e of
               Some err \<Rightarrow> Return (Some err)
             | None \<Rightarrow> CallSet [0] [0] [ucast (n + 1)] Return))"
| "demo_apply_instant (Annotate d) =
     CallGet [0] [0] (\<lambda>r.
       case demo_size r of
         Inl err \<Rightarrow> Return (Some err)
       | Inr n \<Rightarrow> CallSet [2] [ucast n] d Return)"
| "demo_apply_instant Reject = Return (Some ErrInvalidRequest)"

definition demo_conf :: BatchMutatorConfig where
  "demo_conf = \<lparr>Timeout = 0, BatchSize = 10, BufferSize = 4\<rparr>"

definition empty_store :: "bytes \<Rightarrow> (bytes \<times> bytes \<times> bytes) list" where
  "empty_store = (\<lambda>_. [])"

definition idle :: "(bytes \<times> bytes \<times> bytes) list consumed" where
  "idle = \<lparr>db = empty_store, scopes = [], fatal = None\<rparr>"

definition item_a :: "demo_mutation chObject" where
  "item_a = \<lparr>ns = [0x0A], mut = Append [0x61]\<rparr>"

definition item_b :: "demo_mutation chObject" where
  "item_b = \<lparr>ns = [0x0B], mut = Append [0x62]\<rparr>"

definition item_note :: "demo_mutation chObject" where
  "item_note = \<lparr>ns = [0x0A], mut = Annotate [0x61]\<rparr>"

definition item_bad :: "demo_mutation chObject" where
  "item_bad = \<lparr>ns = [0x0A], mut = Reject\<rparr>"

text \<open>
  The words of the spec for the instant mutator: the batch mutator with
  \<open>BatchSize = 1\<close> and \<open>Timeout = 0\<close>, given one mutation. The caller gets what
  \<open>QueueMutation\<close> returns; the consumer then works the channel off.
\<close>

definition batch_of_one ::
  "('kv, 'v) KeyWriter \<Rightarrow> ('v, 'm) api \<Rightarrow> (bytes \<Rightarrow> 'kv) \<Rightarrow> bytes \<Rightarrow> 'm \<Rightarrow> error option \<times> 'kv consumed" where
  "batch_of_one W a store nsp m =
     (case QueueMutation [] nsp m of
        (ch, err) \<Rightarrow> (err, consume \<lparr>Timeout = 0, BatchSize = 1, BufferSize = 1\<rparr> W a ch store))"

text \<open>An instance of the library functions for ASCII text, to run the client on.\<close>

definition digit_val :: "char \<Rightarrow> int option" where
  "digit_val c =
     (let n = (of_char c :: int)
      in if 48 \<le> n \<and> n \<le> 57 then Some (n - 48) else None)"

fun parse_digits :: "int \<Rightarrow> string \<Rightarrow> int option" where
  "parse_digits acc [] = Some acc"
| "parse_digits acc (c # cs) =
     (case digit_val c of None \<Rightarrow> None | Some d \<Rightarrow> parse_digits (10 * acc + d) cs)"

definition ascii_Atoi :: "string \<Rightarrow> error + int" where
  "ascii_Atoi s =
     (let body = (case s of c # cs \<Rightarrow> if c = CHR ''-'' \<or> c = CHR ''+'' then cs else s | [] \<Rightarrow> s);
          neg = (case s of c # cs \<Rightarrow> c = CHR ''-'' | [] \<Rightarrow> False)
      in if body = [] then Inl (ErrOther ''invalid syntax'')
         else (case parse_digits 0 body of
                 None \<Rightarrow> Inl (ErrOther ''invalid syntax'')
               | Some n \<Rightarrow>
                   if neg then (if n \<le> 2 ^ 63 then Inr (- n) else Inl (ErrOther ''value out of range''))
                   else (if n < 2 ^ 63 then Inr n else Inl (ErrOther ''value out of range''))))"

definition hex_val :: "char \<Rightarrow> nat option" where
  "hex_val c =
     (let n = (of_char c :: nat)
      in if 48 \<le> n \<and> n \<le> 57 then Some (n - 48)
         else if 97 \<le> n \<and> n \<le> 102 then Some (n - 87)
         else if 65 \<le> n \<and> n \<le> 70 then Some (n - 55)
         else None)"

fun ascii_DecodeString :: "string \<Rightarrow> error + bytes" where
  "ascii_DecodeString [] = Inr []"
| "ascii_DecodeString [c] = Inl (ErrOther ''odd length hex string'')"
| "ascii_DecodeString (c # d # rest) =
     (case (hex_val c, hex_val d) of
        (Some h, Some l) \<Rightarrow>
          (case ascii_DecodeString rest of
             Inl err \<Rightarrow> Inl err
           | Inr bs \<Rightarrow> Inr (of_nat (16 * h + l) # bs))
      | _ \<Rightarrow> Inl (ErrOther ''invalid byte''))"

definition ascii_space :: "char \<Rightarrow> bool" where
  "ascii_space c = (c \<in> set [CHR '' '', CHR 0x09, CHR 0x0A, CHR 0x0B, CHR 0x0C, CHR 0x0D])"

definition ascii_TrimSpace :: "string \<Rightarrow> string" where
  "ascii_TrimSpace s = rev (dropWhile ascii_space (rev (dropWhile ascii_space s)))"

definition ascii_lib :: go_lib where
  "ascii_lib =
     \<lparr>Atoi = ascii_Atoi,
      DecodeString = ascii_DecodeString,
      TrimSpace = ascii_TrimSpace,
      FormatInt = (\<lambda>i. if i = 1 then ''1'' else ''0'')\<rparr>"

definition raw_factory :: "bytes VerifiableEntryFactory" where
  "raw_factory = \<lparr>Format = [], CreateFromBytes = Inr\<rparr>"

definition proof_headers :: Header where
  "proof_headers =
     [''X-Verified-Proof'' \<mapsto> [''0/ab, 300/cd'', ''255/''],
      ''X-Verified-Treesize'' \<mapsto> [''1'']]"

definition proof_transport :: "string \<Rightarrow> string \<Rightarrow> error + bytes \<times> Header" where
  "proof_transport method path = Inr ([0x76], proof_headers)"

definition expected_proof :: "bytes MapInclusionProof" where
  "expected_proof =
     \<lparr>pValue = [0x76], pTreeSize = 1,
      AuditPath = (replicate 256 None)[0 := Some [0xab], 255 := Some []],
      pKey = [0x6b]\<rparr>"



definition unreadable_api :: "(bytes, demo_mutation) api" where
  "unreadable_api = demo_api\<lparr>readObjectSize := (\<lambda>kr. Inl (ErrOther ''size unreadable''))\<rparr>"

section \<open>Theorems: LogTreeHash\<close>

lemma LogTreeHash_authorized:
  assumes "verifyAccessForLogOperation s (Log req) operationReadHash = None"
    and "logBucket s (Log req) = Inr nsp"
    and "lookupLogTreeHead s (Reader s nsp) (LogType (Log req)) = Inr head"
  shows "LogTreeHash s req =
     (if sint (TreeSize req) < 0 then Inl ErrInvalidTreeRange
      else if TreeSize req = 0 \<or> TreeSize req = rTreeSize head then Inr head
      else if sint (rTreeSize head) < sint (TreeSize req) then Inl ErrInvalidTreeRange
      else (case lookupLogRootHashBySize s (Reader s nsp) (LogType (Log req)) (TreeSize req) of
              Inl err \<Rightarrow> Inl err
            | Inr mth \<Rightarrow> Inr \<lparr>rTreeSize = TreeSize req, RootHash = mth\<rparr>))"
  using assms by (simp add: LogTreeHash_def ExecuteReadOnly_def)

text \<open>
  C3 (as the claim states it, refuted): on the log of three entries a request with
  \<open>tree_size = 0\<close> is answered with the current head, size 3 and root
  \<open>0x11 ... 0x11\<close>, not with size 0 and the all-zero hash.
\<close>

theorem C3_tree_size_zero_counterexample:
  "LogTreeHash three_entry_service \<lparr>Log = plain_log, TreeSize = 0\<rparr>
     = Inr \<lparr>rTreeSize = 3, RootHash = replicate 32 0x11\<rparr>
   \<and> LogTreeHash three_entry_service \<lparr>Log = plain_log, TreeSize = 0\<rparr>
     \<noteq> Inr \<lparr>rTreeSize = 0, RootHash = replicate 32 0\<rparr>"
  by (simp add: LogTreeHash_def ExecuteReadOnly_def three_entry_service_def three_entry_head_def)

text \<open>
  C3 (amended): for an authorized, well-formed request with \<open>tree_size = 0\<close> whose head
  lookup succeeds, \<open>LogTreeHash\<close> returns the log's current tree head unchanged: zero is
  the request for the latest head, so the answer has size 0 only when the log's head has.
\<close>

theorem C3_tree_size_zero_returns_head:
  assumes "verifyAccessForLogOperation s (Log req) operationReadHash = None"
    and "logBucket s (Log req) = Inr nsp"
    and "lookupLogTreeHead s (Reader s nsp) (LogType (Log req)) = Inr head"
    and "TreeSize req = 0"
  shows "LogTreeHash s req = Inr head"
  using assms by (simp add: LogTreeHash_authorized)

theorem C3_tree_size_zero_returns_head_witness:
  "verifyAccessForLogOperation three_entry_service (Log \<lparr>Log = plain_log, TreeSize = 0\<rparr>) operationReadHash = None
   \<and> logBucket three_entry_service (Log \<lparr>Log = plain_log, TreeSize = 0\<rparr>) = Inr (map (\<lambda>c. of_nat (of_char c)) ''audit'')
   \<and> lookupLogTreeHead three_entry_service (Reader three_entry_service (map (\<lambda>c. of_nat (of_char c)) ''audit''))
        (LogType (Log \<lparr>Log = plain_log, TreeSize = 0\<rparr>)) = Inr three_entry_head
   \<and> LogTreeHash three_entry_service \<lparr>Log = plain_log, TreeSize = 0\<rparr> = Inr three_entry_head"
proof -
  let ?req = "\<lparr>Log = plain_log, TreeSize = 0\<rparr>"
  let ?ns = "map (\<lambda>c. of_nat (of_char c)) ''audit'' :: bytes"
  have a: "verifyAccessForLogOperation three_entry_service (Log ?req) operationReadHash = None"
    by (simp add: three_entry_service_def)
  have b: "logBucket three_entry_service (Log ?req) = Inr ?ns"
    by (simp add: three_entry_service_def plain_log_def)
  have c: "lookupLogTreeHead three_entry_service (Reader three_entry_service ?ns) (LogType (Log ?req))
             = Inr three_entry_head"
    by (simp add: three_entry_service_def)
  have d: "TreeSize ?req = 0" by simp
  from C3_tree_size_zero_returns_head [OF a b c d] a b c show ?thesis by blast
qed

text \<open>
  C4: for an authorized request whose namespace derives and whose head lookup succeeds
  with a non-negative size, \<open>LogTreeHash\<close> fails with \<open>ErrInvalidTreeRange\<close> exactly
  when the requested size is negative or greater than the head's size. The error values
  of the root-hash lookup are passed through unchanged, so that lookup is taken not to
  report \<open>ErrInvalidTreeRange\<close> itself.
\<close>

theorem C4_invalid_tree_range_iff:
  assumes "verifyAccessForLogOperation s (Log req) operationReadHash = None"
    and "logBucket s (Log req) = Inr nsp"
    and "lookupLogTreeHead s (Reader s nsp) (LogType (Log req)) = Inr head"
    and "0 \<le> sint (rTreeSize head)"
    and "\<forall>n. lookupLogRootHashBySize s (Reader s nsp) (LogType (Log req)) n \<noteq> Inl ErrInvalidTreeRange"
  shows "LogTreeHash s req = Inl ErrInvalidTreeRange
           \<longleftrightarrow> sint (TreeSize req) < 0 \<or> sint (rTreeSize head) < sint (TreeSize req)"
proof -
  have eq: "LogTreeHash s req =
     (if sint (TreeSize req) < 0 then Inl ErrInvalidTreeRange
      else if TreeSize req = 0 \<or> TreeSize req = rTreeSize head then Inr head
      else if sint (rTreeSize head) < sint (TreeSize req) then Inl ErrInvalidTreeRange
      else (case lookupLogRootHashBySize s (Reader s nsp) (LogType (Log req)) (TreeSize req) of
              Inl err \<Rightarrow> Inl err
            | Inr mth \<Rightarrow> Inr \<lparr>rTreeSize = TreeSize req, RootHash = mth\<rparr>))"
    using assms(1-3) by (rule LogTreeHash_authorized)
  show ?thesis
  proof (cases "sint (TreeSize req) < 0")
    case True
    then show ?thesis by (simp add: eq)
  next
    case nonneg: False
    show ?thesis
    proof (cases "TreeSize req = 0 \<or> TreeSize req = rTreeSize head")
      case True
      then have "\<not> sint (rTreeSize head) < sint (TreeSize req)"
        using assms(4) by auto
      with True nonneg show ?thesis by (simp add: eq)
    next
      case False
      with nonneg assms(5) show ?thesis
        by (auto simp: eq split: sum.splits)
    qed
  qed
qed

theorem C4_invalid_tree_range_iff_witness:
  "verifyAccessForLogOperation three_entry_service (Log \<lparr>Log = plain_log, TreeSize = 5\<rparr>) operationReadHash = None
   \<and> logBucket three_entry_service (Log \<lparr>Log = plain_log, TreeSize = 5\<rparr>) = Inr (map (\<lambda>c. of_nat (of_char c)) ''audit'')
   \<and> lookupLogTreeHead three_entry_service (Reader three_entry_service (map (\<lambda>c. of_nat (of_char c)) ''audit''))
        (LogType (Log \<lparr>Log = plain_log, TreeSize = 5\<rparr>)) = Inr three_entry_head
   \<and> 0 \<le> sint (rTreeSize three_entry_head)
   \<and> (\<forall>n. lookupLogRootHashBySize three_entry_service
            (Reader three_entry_service (map (\<lambda>c. of_nat (of_char c)) ''audit''))
            (LogType (Log \<lparr>Log = plain_log, TreeSize = 5\<rparr>)) n \<noteq> Inl ErrInvalidTreeRange)
   \<and> LogTreeHash three_entry_service \<lparr>Log = plain_log, TreeSize = 5\<rparr> = Inl ErrInvalidTreeRange"
proof -
  let ?req = "\<lparr>Log = plain_log, TreeSize = 5\<rparr>"
  let ?ns = "map (\<lambda>c. of_nat (of_char c)) ''audit'' :: bytes"
  have a: "verifyAccessForLogOperation three_entry_service (Log ?req) operationReadHash = None"
    by (simp add: three_entry_service_def)
  have b: "logBucket three_entry_service (Log ?req) = Inr ?ns"
    by (simp add: three_entry_service_def plain_log_def)
  have c: "lookupLogTreeHead three_entry_service (Reader three_entry_service ?ns) (LogType (Log ?req))
             = Inr three_entry_head"
    by (simp add: three_entry_service_def)
  have d: "0 \<le> sint (rTreeSize three_entry_head)"
    by (simp add: three_entry_head_def)
  have e: "\<forall>n. lookupLogRootHashBySize three_entry_service (Reader three_entry_service ?ns)
                 (LogType (Log ?req)) n \<noteq> Inl ErrInvalidTreeRange"
    by (simp add: three_entry_service_def)
  have f: "sint (rTreeSize three_entry_head) < sint (TreeSize ?req)"
    by (simp add: three_entry_head_def)
  from C4_invalid_tree_range_iff [OF a b c d e] f
  have "LogTreeHash three_entry_service ?req = Inl ErrInvalidTreeRange" by blast
  with a b c d e show ?thesis by blast
qed

section \<open>Theorems: the overlay\<close>

text \<open>The key of the overlay map determines the bucket and the key.\<close>

lemma hi_nat: "unat (drop_bit 4 (v::8 word)) = unat v div 16"
  by (simp add: drop_bit_eq_div unat_div)

lemma lo_nat: "unat ((v::8 word) AND 0x0f) = unat v mod 16"
proof -
  have "(15 :: 8 word) = mask 4" by (simp add: mask_eq_exp_minus_1)
  then have "v AND 0x0f = take_bit 4 v" by (simp add: take_bit_eq_mask)
  then show ?thesis by (simp add: take_bit_eq_mod unat_mod)
qed

lemma hextable_inj: "i < 16 \<Longrightarrow> j < 16 \<Longrightarrow> hextable ! i = hextable ! j \<Longrightarrow> i = j"
proof -
  assume "i < 16" "j < 16" "hextable ! i = hextable ! j"
  moreover have "distinct hextable" by (simp add: hextable_def)
  moreover have "length hextable = 16" by (simp add: hextable_def)
  ultimately show "i = j" by (simp add: nth_eq_iff_index_eq)
qed

lemma hextable_no_bar: "i < 16 \<Longrightarrow> hextable ! i \<noteq> CHR ''|''"
proof -
  assume "i < 16"
  moreover have "length hextable = 16" by (simp add: hextable_def)
  ultimately have "hextable ! i \<in> set hextable" by (simp only: nth_mem)
  moreover have "CHR ''|'' \<notin> set hextable" by (simp add: hextable_def)
  ultimately show ?thesis by metis
qed

lemma hex_pair_inj:
  fixes v w :: "8 word"
  assumes "hextable ! unat (drop_bit 4 v) = hextable ! unat (drop_bit 4 w)"
    and "hextable ! unat (v AND 0x0f) = hextable ! unat (w AND 0x0f)"
  shows "v = w"
proof -
  have "unat v div 16 < 16" "unat w div 16 < 16"
    using unsigned_less [of v, where 'a = nat] unsigned_less [of w, where 'a = nat] by simp_all
  with assms(1) have d: "unat v div 16 = unat w div 16"
    by (simp only: hi_nat) (rule hextable_inj)
  have "unat v mod 16 < 16" "unat w mod 16 < 16" by simp_all
  with assms(2) have m: "unat v mod 16 = unat w mod 16"
    by (simp only: lo_nat) (rule hextable_inj)
  from d m have "unat v = unat w" by (metis div_mult_mod_eq)
  then show ?thesis by (simp add: word_unat_eq_iff)
qed

lemma EncodeToString_inj: "EncodeToString xs = EncodeToString ys \<Longrightarrow> xs = ys"
proof (induction xs arbitrary: ys)
  case Nil
  then show ?case by (cases ys) (simp_all add: EncodeToString_def)
next
  case (Cons x xs)
  then show ?case
    by (cases ys) (auto simp: EncodeToString_def dest: hex_pair_inj)
qed

lemma EncodeToString_no_bar: "CHR ''|'' \<notin> set (EncodeToString xs)"
proof (induction xs)
  case Nil
  then show ?case by (simp add: EncodeToString_def)
next
  case (Cons x xs)
  have "unat x div 16 < 16"
    using unsigned_less [of x, where 'a = nat] by simp
  then have h: "hextable ! unat (drop_bit 4 x) \<noteq> CHR ''|''"
    by (simp add: hi_nat hextable_no_bar)
  have "unat x mod 16 < 16" by simp
  then have l: "hextable ! unat (x AND 0x0f) \<noteq> CHR ''|''"
    by (simp add: lo_nat hextable_no_bar)
  from Cons h l show ?case by (auto simp: EncodeToString_def)
qed

lemma split_at_bar:
  assumes "c \<notin> set xs" "c \<notin> set xs'" "xs @ c # ys = xs' @ c # ys'"
  shows "xs = xs' \<and> ys = ys'"
  using assms
proof (induction xs arbitrary: xs')
  case Nil
  then show ?case by (cases xs') auto
next
  case (Cons a xs)
  then show ?case by (cases xs') auto
qed



lemma overlay_key_inj: "overlay_key b k = overlay_key b' k' \<longleftrightarrow> b = b' \<and> k = k'"
proof
  assume "overlay_key b k = overlay_key b' k'"
  then have "EncodeToString b @ CHR ''|'' # EncodeToString k = EncodeToString b' @ CHR ''|'' # EncodeToString k'"
    by (simp add: overlay_key_def)
  with EncodeToString_no_bar [of b] EncodeToString_no_bar [of b']
  have "EncodeToString b = EncodeToString b' \<and> EncodeToString k = EncodeToString k'"
    by (rule split_at_bar)
  then show "b = b' \<and> k = k'" by (auto dest: EncodeToString_inj)
qed simp

lemma apply_sets_Nil: "apply_sets a m [] = m"
  by (simp add: apply_sets_def)

lemma apply_sets_Cons:
  "apply_sets a m ((bucket, key, val) # calls) = apply_sets a (fst (mapNoLockDB_Set a m bucket key val)) calls"
  by (simp add: apply_sets_def)

lemma Set_M:
  "M (fst (mapNoLockDB_Set a m b k v)) (overlay_key bucket key) =
     (case Marshal a v of
        Inl _ \<Rightarrow> M m (overlay_key bucket key)
      | Inr bs \<Rightarrow> if b = bucket \<and> k = key then Some bs else M m (overlay_key bucket key))"
  by (auto simp: mapNoLockDB_Set_def Let_def overlay_key_inj split: sum.splits)

lemma Set_Parent: "Parent (fst (mapNoLockDB_Set a m b k v)) = Parent m"
  by (simp add: mapNoLockDB_Set_def Let_def split: sum.splits)

lemma Set_L:
  "L (fst (mapNoLockDB_Set a m b k v)) =
     (case Marshal a v of Inl _ \<Rightarrow> L m | Inr _ \<Rightarrow> L m @ [\<lparr>Key = k, Bucket = b, Value = v\<rparr>])"
  by (simp add: mapNoLockDB_Set_def Let_def split: sum.splits)

lemma apply_sets_Parent: "Parent (apply_sets a m calls) = Parent m"
proof (induction calls arbitrary: m)
  case Nil
  show ?case by (simp add: apply_sets_Nil)
next
  case (Cons c calls)
  obtain b k v where c: "c = (b, k, v)" by (cases c)
  show ?case by (simp add: c apply_sets_Cons Cons.IH Set_Parent)
qed

lemma apply_sets_L:
  "L (apply_sets a m calls) = L m @ map (\<lambda>(b, k, v). \<lparr>Key = k, Bucket = b, Value = v\<rparr>) (accepted a calls)"
proof (induction calls arbitrary: m)
  case Nil
  show ?case by (simp add: apply_sets_Nil accepted_def)
next
  case (Cons c calls)
  obtain b k v where c: "c = (b, k, v)" by (cases c)
  show ?case
    by (cases "Marshal a v") (simp_all add: c apply_sets_Cons Cons.IH Set_L accepted_def)
qed

lemma apply_sets_M:
  "M (apply_sets a m calls) (overlay_key bucket key) =
     (case latest (accepted a calls) bucket key of
        Some v \<Rightarrow> (case Marshal a v of Inr bs \<Rightarrow> Some bs | Inl _ \<Rightarrow> None)
      | None \<Rightarrow> M m (overlay_key bucket key))"
proof (induction calls arbitrary: m)
  case Nil
  show ?case by (simp add: apply_sets_Nil accepted_def)
next
  case (Cons c calls)
  obtain b k v where c: "c = (b, k, v)" by (cases c)
  show ?case
  proof (cases "Marshal a v")
    case (Inl err)
    then show ?thesis
      by (simp add: c apply_sets_Cons Cons.IH Set_M accepted_def split: option.splits)
  next
    case (Inr bs)
    then have acc: "accepted a (c # calls) = (b, k, v) # accepted a calls"
      by (simp add: c accepted_def)
    show ?thesis
      by (cases "latest (accepted a calls) bucket key")
         (simp_all add: c apply_sets_Cons Cons.IH Set_M acc [unfolded c] Inr)
  qed
qed

lemma accepted_Marshal: "(b, k, v) \<in> set (accepted a calls) \<Longrightarrow> \<exists>bs. Marshal a v = Inr bs"
  by (cases "Marshal a v") (auto simp: accepted_def)

lemma latest_mem: "latest calls bucket key = Some v \<Longrightarrow> (bucket, key, v) \<in> set calls"
  by (induction calls bucket key rule: latest.induct) (auto split: option.splits if_splits)

text \<open>
  Whatever a program does to the overlay through \<open>Get\<close> and \<open>Set\<close> amounts to a
  sequence of \<open>Set\<close> calls; so does a whole batch.
\<close>

lemma apply_sets_append: "apply_sets a (apply_sets a m xs) ys = apply_sets a m (xs @ ys)"
  by (simp add: apply_sets_def)

lemma run_on_overlay_sets:
  "\<exists>calls. fst (run_on_writer (overlay_writer a) p m) = apply_sets a m calls"
proof (induction p arbitrary: m)
  case (Return r)
  have "fst (run_on_writer (overlay_writer a) (Return r) m) = apply_sets a m []"
    by (simp add: apply_sets_Nil)
  then show ?case by blast
next
  case (CallGet bucket key cont)
  have "cont (kwGet (overlay_writer a) m bucket key) \<in> range cont" by simp
  from CallGet [OF this, of m] show ?case by simp
next
  case (CallSet bucket key val cont)
  obtain m1 e where s: "mapNoLockDB_Set a m bucket key val = (m1, e)"
    by (cases "mapNoLockDB_Set a m bucket key val")
  have "cont e \<in> range cont" by simp
  from CallSet [OF this, of m1] obtain calls where
    "fst (run_on_writer (overlay_writer a) (cont e) m1) = apply_sets a m1 calls" by blast
  with s have "fst (run_on_writer (overlay_writer a) (CallSet bucket key val cont) m)
                 = apply_sets a m ((bucket, key, val) # calls)"
    by (simp add: overlay_writer_def apply_sets_Cons)
  then show ?case by blast
qed

lemma handleBatch_loop_sets:
  "handleBatch_loop conf a seed cnt kw curSize obj ch = (r, kw', ch')
     \<Longrightarrow> \<exists>calls. kw' = apply_sets a kw calls"
proof (induction conf a seed cnt kw curSize obj ch rule: handleBatch_loop.induct)
  case (1 conf a seed cnt kw curSize obj ch)
  note p = "1.prems"(1) [unfolded handleBatch_loop.simps [of conf a seed cnt kw curSize obj ch]]
  show ?case
  proof (cases "ns seed \<noteq> ns obj")
    case True
    with p have "kw' = apply_sets a kw []" by (simp add: apply_sets_Nil)
    then show ?thesis by blast
  next
    case same: False
    obtain kw1 r1 where run: "run_on_writer (overlay_writer a) (ApplyMutation a curSize (mut obj)) kw = (kw1, r1)"
      by (cases "run_on_writer (overlay_writer a) (ApplyMutation a curSize (mut obj)) kw")
    from run_on_overlay_sets [of a "ApplyMutation a curSize (mut obj)" kw] run
    obtain calls1 where kw1: "kw1 = apply_sets a kw calls1" by auto
    show ?thesis
    proof (cases r1)
      case (Inl err)
      with same run p kw1 show ?thesis by auto
    next
      case (Inr size1)
      show ?thesis
      proof (cases "cnt - 1 = 0")
        case True
        with same run Inr p kw1 show ?thesis by auto
      next
        case more: False
        show ?thesis
        proof (cases ch)
          case Nil
          with same run Inr more p kw1 show ?thesis by auto
        next
          case (Cons ev rest)
          show ?thesis
          proof (cases ev)
            case TimedOut
            with same run Inr more Cons p kw1 show ?thesis by auto
          next
            case (Item obj1)
            with same run Inr more Cons p
            have "handleBatch_loop conf a seed (cnt - 1) kw1 size1 obj1 rest = (r, kw', ch')"
              by simp
            with "1.IH" [OF same run [symmetric] Inr more Cons Item]
            obtain calls2 where "kw' = apply_sets a kw1 calls2" by blast
            with kw1 have "kw' = apply_sets a kw (calls1 @ calls2)"
              by (simp add: apply_sets_append)
            then show ?thesis by blast
          qed
        qed
      qed
    qed
  qed
qed

lemma read_phase_sets:
  assumes "read_phase conf a seed ch kr = Inr (startSize, nextSize, seed', wrapper, ch')"
  shows "\<exists>calls. wrapper = apply_sets a (fresh_overlay kr) calls"
proof -
  from assms obtain size0 where
    "handleBatch_loop conf a seed (BatchSize conf) (fresh_overlay kr) size0 seed ch
       = (Inr (nextSize, seed'), wrapper, ch')"
    by (auto simp: read_phase_def handleBatch_def split: sum.splits prod.splits)
  then show ?thesis by (rule handleBatch_loop_sets)
qed

text \<open>
  C6: within a batch (the \<open>Set\<close> calls made on a fresh wrapper), \<open>Get\<close> of a bucket
  and key returns the value of the most recent \<open>Set\<close> for them that returned nil, and asks
  the parent when there is none; the parent is never changed, and the replay list holds
  exactly these \<open>Set\<close> calls in order. \<open>proto.Unmarshal\<close> is taken to read back
  what \<open>proto.Marshal\<close> wrote.
\<close>

theorem C6_read_your_writes:
  assumes "\<forall>v bs. Marshal a v = Inr bs \<longrightarrow> Unmarshal a bs = Inr v"
  shows "mapNoLockDB_Get a (apply_sets a (fresh_overlay kr) calls) bucket key =
           (case latest (accepted a calls) bucket key of
              Some v \<Rightarrow> Inr v
            | None \<Rightarrow> kr bucket key)
         \<and> Parent (apply_sets a (fresh_overlay kr) calls) = kr
         \<and> L (apply_sets a (fresh_overlay kr) calls) =
             map (\<lambda>(b, k, v). \<lparr>Key = k, Bucket = b, Value = v\<rparr>) (accepted a calls)"
proof -
  let ?m = "apply_sets a (fresh_overlay kr) calls"
  have par: "Parent ?m = kr"
    by (simp add: apply_sets_Parent fresh_overlay_def)
  have lst: "L ?m = map (\<lambda>(b, k, v). \<lparr>Key = k, Bucket = b, Value = v\<rparr>) (accepted a calls)"
    by (simp add: apply_sets_L fresh_overlay_def)
  have mp: "M ?m (overlay_key bucket key) =
     (case latest (accepted a calls) bucket key of
        Some v \<Rightarrow> (case Marshal a v of Inr bs \<Rightarrow> Some bs | Inl _ \<Rightarrow> None)
      | None \<Rightarrow> None)"
    by (simp add: apply_sets_M fresh_overlay_def split: option.splits)
  have ok: "latest (accepted a calls) bucket key = Some v \<Longrightarrow> \<exists>bs. Marshal a v = Inr bs" for v
    by (auto dest!: latest_mem accepted_Marshal)
  have "mapNoLockDB_Get a ?m bucket key =
          (case latest (accepted a calls) bucket key of Some v \<Rightarrow> Inr v | None \<Rightarrow> kr bucket key)"
  proof (cases "latest (accepted a calls) bucket key")
    case None
    with mp par show ?thesis
      by (simp add: mapNoLockDB_Get_def Let_def)
  next
    case (Some v)
    with ok obtain bs where bs: "Marshal a v = Inr bs" by blast
    with assms have "Unmarshal a bs = Inr v" by blast
    with Some mp bs show ?thesis
      by (simp add: mapNoLockDB_Get_def Let_def)
  qed
  with par lst show ?thesis by simp
qed


theorem C6_read_your_writes_witness:
  "mapNoLockDB_Get demo_api
        (apply_sets demo_api (fresh_overlay (\<lambda>_ _. Inl ErrNoSuchKey))
           [([1], [0], [0x61]), ([2], [0], [0x63]), ([1], [0], [0x62])]) [1] [0] = Inr [0x62]
   \<and> mapNoLockDB_Get demo_api
        (apply_sets demo_api (fresh_overlay (\<lambda>_ _. Inl ErrNoSuchKey))
           [([1], [0], [0x61]), ([2], [0], [0x63]), ([1], [0], [0x62])]) [1] [1] = Inl ErrNoSuchKey
   \<and> L (apply_sets demo_api (fresh_overlay (\<lambda>_ _. Inl ErrNoSuchKey))
           [([1], [0], [0x61]), ([2], [0], [0x63]), ([1], [0], [0x62])])
       = [\<lparr>Key = [0], Bucket = [1], Value = [0x61]\<rparr>,
          \<lparr>Key = [0], Bucket = [2], Value = [0x63]\<rparr>,
          \<lparr>Key = [0], Bucket = [1], Value = [0x62]\<rparr>]"
proof -
  let ?calls = "[([1], [0], [0x61]), ([2], [0], [0x63]), ([1], [0], [0x62])] :: (bytes \<times> bytes \<times> bytes) list"
  let ?kr = "(\<lambda>_ _. Inl ErrNoSuchKey) :: bytes KeyReader"
  have rt: "\<forall>v bs. Marshal demo_api v = Inr bs \<longrightarrow> Unmarshal demo_api bs = Inr v"
    by (simp add: demo_api_def)
  have acc: "accepted demo_api ?calls = ?calls"
    by (simp add: accepted_def demo_api_def)
  from C6_read_your_writes [OF rt, of ?kr ?calls "[1]" "[0]"]
  have one: "mapNoLockDB_Get demo_api (apply_sets demo_api (fresh_overlay ?kr) ?calls) [1] [0] = Inr [0x62]"
    and three: "L (apply_sets demo_api (fresh_overlay ?kr) ?calls)
                  = [\<lparr>Key = [0], Bucket = [1], Value = [0x61]\<rparr>,
                     \<lparr>Key = [0], Bucket = [2], Value = [0x63]\<rparr>,
                     \<lparr>Key = [0], Bucket = [1], Value = [0x62]\<rparr>]"
    by (simp_all add: acc)
  from C6_read_your_writes [OF rt, of ?kr ?calls "[1]" "[1]"]
  have two: "mapNoLockDB_Get demo_api (apply_sets demo_api (fresh_overlay ?kr) ?calls) [1] [1] = Inl ErrNoSuchKey"
    by (simp add: acc)
  from one two three show ?thesis by blast
qed

lemma replay_map_writer: "replay map_writer ops kv = (foldl kv_put kv ops, None)"
  by (induction ops arbitrary: kv) (simp_all add: map_writer_def kv_put_def)

lemma foldl_calls_latest:
  "foldl kv_put kv (map (\<lambda>(b, k, v). \<lparr>Key = k, Bucket = b, Value = v\<rparr>) calls) (bucket, key) =
     (case latest calls bucket key of Some v \<Rightarrow> Some v | None \<Rightarrow> kv (bucket, key))"
proof (induction calls arbitrary: kv)
  case Nil
  show ?case by simp
next
  case (Cons c calls)
  obtain b k v where c: "c = (b, k, v)" by (cases c)
  let ?f = "\<lambda>(b, k, v). \<lparr>Key = k, Bucket = b, Value = v\<rparr>"
  have step: "foldl kv_put kv (map ?f (c # calls)) (bucket, key)
                = foldl kv_put (kv_put kv \<lparr>Key = k, Bucket = b, Value = v\<rparr>) (map ?f calls) (bucket, key)"
    by (simp add: c)
  have ih: "foldl kv_put (kv_put kv \<lparr>Key = k, Bucket = b, Value = v\<rparr>) (map ?f calls) (bucket, key)
        = (case latest calls bucket key of
             Some w \<Rightarrow> Some w
           | None \<Rightarrow> kv_put kv \<lparr>Key = k, Bucket = b, Value = v\<rparr> (bucket, key))"
    by (rule Cons.IH)
  have val: "kv_put kv \<lparr>Key = k, Bucket = b, Value = v\<rparr> (bucket, key)
               = (if b = bucket \<and> k = key then Some v else kv (bucket, key))"
    by (simp add: kv_put_def)
  show ?case
    by (simp only: step ih val) (auto simp: c split: option.splits)
qed

lemma apply_sets_dom:
  "dom (M (apply_sets a m calls)) = dom (M m) \<union> (\<lambda>(b, k, v). overlay_key b k) ` set (accepted a calls)"
proof (induction calls arbitrary: m)
  case Nil
  show ?case by (simp add: apply_sets_Nil accepted_def)
next
  case (Cons c calls)
  obtain b k v where c: "c = (b, k, v)" by (cases c)
  show ?case
    by (cases "Marshal a v")
       (auto simp: c apply_sets_Cons Cons.IH accepted_def mapNoLockDB_Set_def Let_def)
qed

lemma latest_dom: "dom (\<lambda>(bucket, key). latest calls bucket key) = (\<lambda>(b, k, v). (b, k)) ` set calls"
proof (induction calls)
  case Nil
  show ?case by (simp add: dom_def)
next
  case (Cons c calls)
  obtain b k v where c: "c = (b, k, v)" by (cases c)
  have "dom (\<lambda>(bucket, key). latest (c # calls) bucket key)
          = insert (b, k) (dom (\<lambda>(bucket, key). latest calls bucket key))"
    by (auto simp: c dom_def split: option.splits if_splits)
  with Cons show ?case by (simp add: c)
qed

text \<open>
  C8: replaying the replay list of a batch into an empty last-write-wins writer never
  fails. For every bucket and key the writer then holds the value of the latest \<open>Set\<close>
  of the batch that returned nil (later calls overwrite earlier ones), and the overlay
  map holds the marshalled bytes of that same value under the key of the bucket and key;
  the map has no other keys, and the replay list is these \<open>Set\<close> calls in order.
\<close>

theorem C8_replay_equals_overlay:
  "snd (replay map_writer (L (apply_sets a (fresh_overlay kr) calls)) Map.empty) = None
   \<and> (\<forall>bucket key.
        map_option (Marshal a) (fst (replay map_writer (L (apply_sets a (fresh_overlay kr) calls)) Map.empty) (bucket, key))
          = map_option Inr (M (apply_sets a (fresh_overlay kr) calls) (overlay_key bucket key)))
   \<and> dom (M (apply_sets a (fresh_overlay kr) calls))
        = (\<lambda>(bucket, key). overlay_key bucket key)
            ` dom (fst (replay map_writer (L (apply_sets a (fresh_overlay kr) calls)) Map.empty))
   \<and> (\<forall>bucket key.
        fst (replay map_writer (L (apply_sets a (fresh_overlay kr) calls)) Map.empty) (bucket, key)
          = latest (accepted a calls) bucket key)
   \<and> (\<forall>bucket key.
        map_option Inr (M (apply_sets a (fresh_overlay kr) calls) (overlay_key bucket key))
          = map_option (Marshal a) (latest (accepted a calls) bucket key))
   \<and> L (apply_sets a (fresh_overlay kr) calls)
        = map (\<lambda>(b, k, v). \<lparr>Key = k, Bucket = b, Value = v\<rparr>) (accepted a calls)"
proof -
  let ?m = "apply_sets a (fresh_overlay kr) calls"
  let ?acc = "accepted a calls"
  let ?kv = "fst (replay map_writer (L ?m) Map.empty)"
  have lst: "L ?m = map (\<lambda>(b, k, v). \<lparr>Key = k, Bucket = b, Value = v\<rparr>) ?acc"
    by (simp add: apply_sets_L fresh_overlay_def)
  have kv: "?kv (bucket, key) = latest ?acc bucket key" for bucket key
    by (simp add: replay_map_writer lst foldl_calls_latest split: option.splits)
  have mp: "M ?m (overlay_key bucket key) =
     (case latest ?acc bucket key of
        Some v \<Rightarrow> (case Marshal a v of Inr bs \<Rightarrow> Some bs | Inl _ \<Rightarrow> None)
      | None \<Rightarrow> None)" for bucket key
    by (simp add: apply_sets_M fresh_overlay_def split: option.splits)
  have ok: "latest ?acc bucket key = Some v \<Longrightarrow> \<exists>bs. Marshal a v = Inr bs" for v bucket key
    by (auto dest!: latest_mem accepted_Marshal)
  have one: "snd (replay map_writer (L ?m) Map.empty) = None"
    by (simp add: replay_map_writer)
  have two: "map_option (Marshal a) (?kv (bucket, key)) = map_option Inr (M ?m (overlay_key bucket key))"
    for bucket key
  proof (cases "latest ?acc bucket key")
    case None
    then show ?thesis by (simp add: kv mp)
  next
    case (Some v)
    with ok obtain bs where "Marshal a v = Inr bs" by blast
    with Some show ?thesis by (simp add: kv mp)
  qed
  have "?kv = (\<lambda>(bucket, key). latest ?acc bucket key)"
    by (rule ext) (simp add: kv split: prod.splits)
  then have "dom ?kv = (\<lambda>(b, k, v). (b, k)) ` set ?acc"
    by (simp only: latest_dom)
  then have "(\<lambda>(bucket, key). overlay_key bucket key) ` dom ?kv
               = (\<lambda>(b, k, v). overlay_key b k) ` set ?acc"
    by (auto simp: image_iff split: prod.splits) force+
  moreover have "dom (M ?m) = (\<lambda>(b, k, v). overlay_key b k) ` set ?acc"
    by (simp add: apply_sets_dom fresh_overlay_def)
  ultimately have three: "dom (M ?m) = (\<lambda>(bucket, key). overlay_key bucket key) ` dom ?kv"
    by simp
  have five: "map_option Inr (M ?m (overlay_key bucket key)) = map_option (Marshal a) (latest ?acc bucket key)"
    for bucket key
    using two [of bucket key] by (simp add: kv)
  from one two three kv five lst show ?thesis by blast
qed

section \<open>Theorems: the batch consumer\<close>

lemma consume_loop_Some:
  "consume_loop conf W a (Some seed1) ch1 st =
     (case ExecuteReadOnly (\<lambda>nsp. kwGet W (db st nsp)) (ns seed1) (read_phase conf a seed1 ch1) of
        Inl err \<Rightarrow> st\<lparr>scopes := scopes st @ [ReadOnlyScope (ns seed1)], fatal := Some err\<rparr>
      | Inr (startSize, nextSize, seed2, wrapper, ch2) \<Rightarrow>
          if sint startSize < sint nextSize then
            (case ExecuteUpdate (db st) (ns seed1) (save_out W a (L wrapper) nextSize) of
               (db', Some err) \<Rightarrow>
                 st\<lparr>db := db',
                    scopes := scopes st @ [ReadOnlyScope (ns seed1), ReadWriteScope (ns seed1)],
                    fatal := Some err\<rparr>
             | (db', None) \<Rightarrow>
                 consume_loop conf W a seed2 ch2
                   (st\<lparr>db := db',
                       scopes := scopes st @ [ReadOnlyScope (ns seed1), ReadWriteScope (ns seed1)]\<rparr>))
          else consume_loop conf W a seed2 ch2
                 (st\<lparr>scopes := scopes st @ [ReadOnlyScope (ns seed1)]\<rparr>))"
  by (subst consume_loop.simps) simp


lemma consume_loop_receive:
  "receive ch = Some (seed1, ch1) \<Longrightarrow> consume_loop conf W a None ch st = consume_loop conf W a (Some seed1) ch1 st"
  by (subst consume_loop.simps, subst (2) consume_loop.simps) simp

lemma handleBatch_loop_returns_seed:
  "handleBatch_loop conf a seed cnt kw curSize obj ch = (Inr (n, Some s), kw', ch') \<Longrightarrow> s = seed"
proof (induction conf a seed cnt kw curSize obj ch rule: handleBatch_loop.induct)
  case (1 conf a seed cnt kw curSize obj ch)
  note p = "1.prems"(1) [unfolded handleBatch_loop.simps [of conf a seed cnt kw curSize obj ch]]
  show ?case
  proof (cases "ns seed \<noteq> ns obj")
    case True
    with p show ?thesis by simp
  next
    case same: False
    obtain kw1 r1 where run: "run_on_writer (overlay_writer a) (ApplyMutation a curSize (mut obj)) kw = (kw1, r1)"
      by (cases "run_on_writer (overlay_writer a) (ApplyMutation a curSize (mut obj)) kw")
    show ?thesis
    proof (cases r1)
      case (Inl err)
      with same run p show ?thesis by simp
    next
      case (Inr size1)
      show ?thesis
      proof (cases "cnt - 1 = 0")
        case True
        with same run Inr p show ?thesis by simp
      next
        case more: False
        show ?thesis
        proof (cases ch)
          case Nil
          with same run Inr more p show ?thesis by simp
        next
          case (Cons ev rest)
          show ?thesis
          proof (cases ev)
            case TimedOut
            with same run Inr more Cons p show ?thesis by auto
          next
            case (Item obj1)
            with same run Inr more Cons p
            have "handleBatch_loop conf a seed (cnt - 1) kw1 size1 obj1 rest = (Inr (n, Some s), kw', ch')"
              by simp
            with "1.IH" [OF same run [symmetric] Inr more Cons Item]
            show ?thesis by simp
          qed
        qed
      qed
    qed
  qed
qed

text \<open>
  C1 (the code at the failing input): the channel holds \<open>item_a\<close> for namespace
  \<open>0x0A\<close> and then \<open>item_b\<close> for namespace \<open>0x0B\<close>. \<open>handleBatch\<close> applies
  \<open>item_a\<close>, takes \<open>item_b\<close> off the channel, sees the other namespace and returns
  \<open>item_a\<close> as the next seed. \<open>consume\<close> then applies \<open>item_a\<close> a second time
  (entries 0 and 1 of namespace \<open>0x0A\<close> both hold its data) and never applies
  \<open>item_b\<close> (namespace \<open>0x0B\<close> stays empty).
\<close>

theorem C1_foreign_item_dropped_seed_reapplied:
  "fst (handleBatch demo_conf demo_api (fresh_overlay (\<lambda>_ _. Inl ErrNoSuchKey)) 0 item_a [Item item_b])
     = Inr (1, Some item_a)
   \<and> snd (snd (handleBatch demo_conf demo_api (fresh_overlay (\<lambda>_ _. Inl ErrNoSuchKey)) 0 item_a [Item item_b]))
     = []
   \<and> db (consume demo_conf memory_writer demo_api [Item item_a, Item item_b] empty_store) [0x0A]
     = [([1], [0], [0x61]), ([0], [0], [1]), ([1], [1], [0x61]), ([0], [0], [2])]
   \<and> db (consume demo_conf memory_writer demo_api [Item item_a, Item item_b] empty_store) [0x0B] = []
   \<and> fatal (consume demo_conf memory_writer demo_api [Item item_a, Item item_b] empty_store) = None"
  by code_simp

text \<open>
  C2 (as the claim states it, refuted): \<open>QueueMutation\<close> answers nil for \<open>item_a\<close>
  and for the failing \<open>item_bad\<close> as soon as they are on the channel, when nothing is
  written yet. When the consumer then runs the batch, \<open>item_bad\<close> fails to apply: the
  process ends in \<open>log.Fatal\<close> with \<open>ErrInvalidRequest\<close>, nothing of the batch is
  written, and no caller is told.
\<close>

theorem C2_no_promise_counterexample:
  "snd (QueueMutation [] [0x0A] (Append [0x61])) = None
   \<and> snd (QueueMutation (fst (QueueMutation [] [0x0A] (Append [0x61]))) [0x0A] Reject) = None
   \<and> fst (QueueMutation (fst (QueueMutation [] [0x0A] (Append [0x61]))) [0x0A] Reject)
       = [Item item_a, Item item_bad]
   \<and> fatal (consume demo_conf memory_writer demo_api [Item item_a, Item item_bad] empty_store)
       = Some ErrInvalidRequest
   \<and> db (consume demo_conf memory_writer demo_api [Item item_a, Item item_bad] empty_store) [0x0A] = []
   \<and> scopes (consume demo_conf memory_writer demo_api [Item item_a, Item item_bad] empty_store)
       = [ReadOnlyScope [0x0A]]"
  by code_simp

lemma handleBatch_loop_first_error:
  assumes "\<forall>o1\<in>set (obj # objs). ns o1 = ns seed"
    and "fst (apply_run a kw n (obj # objs)) = Inl err"
    and "\<forall>j. 1 \<le> j \<and> j \<le> int (length objs) \<longrightarrow> cnt \<noteq> j"
  shows "fst (handleBatch_loop conf a seed cnt kw n obj (map Item objs @ ch)) = Inl err"
  using assms
proof (induction objs arbitrary: obj kw n cnt)
  case Nil
  then show ?case
    by (auto simp: handleBatch_loop.simps [of conf a seed cnt kw n obj] split: prod.splits sum.splits)
next
  case (Cons o2 rest)
  obtain kw1 r1 where run: "run_on_writer (overlay_writer a) (ApplyMutation a n (mut obj)) kw = (kw1, r1)"
    by (cases "run_on_writer (overlay_writer a) (ApplyMutation a n (mut obj)) kw")
  from Cons.prems(1) have same: "ns seed = ns obj" by simp
  show ?case
  proof (cases r1)
    case (Inl e)
    with run Cons.prems(2) have "e = err" by simp
    with Inl run same show ?thesis
      by (simp add: handleBatch_loop.simps [of conf a seed cnt kw n obj])
  next
    case (Inr n1)
    have "(1::int) \<le> 1 \<and> 1 \<le> int (length (o2 # rest))" by simp
    with Cons.prems(3) have "cnt \<noteq> 1" by blast
    then have c1: "cnt - 1 \<noteq> 0" by simp
    have c2: "\<forall>j. 1 \<le> j \<and> j \<le> int (length rest) \<longrightarrow> cnt - 1 \<noteq> j"
    proof (intro allI impI)
      fix j :: int
      assume "1 \<le> j \<and> j \<le> int (length rest)"
      then have "1 \<le> j + 1 \<and> j + 1 \<le> int (length (o2 # rest))" by simp
      with Cons.prems(3) have "cnt \<noteq> j + 1" by blast
      then show "cnt - 1 \<noteq> j" by simp
    qed
    from Cons.prems(1) have s2: "\<forall>o1\<in>set (o2 # rest). ns o1 = ns seed" by simp
    from Cons.prems(2) run Inr have e2: "fst (apply_run a kw1 n1 (o2 # rest)) = Inl err" by simp
    from Cons.IH [OF s2 e2 c2]
    have "fst (handleBatch_loop conf a seed (cnt - 1) kw1 n1 o2 (map Item rest @ ch)) = Inl err" .
    with run Inr same c1 show ?thesis
      by (simp add: handleBatch_loop.simps [of conf a seed cnt kw n obj])
  qed
qed

lemma read_phase_size_error:
  "readObjectSize a kr = Inl err \<Longrightarrow> read_phase conf a seed ch kr = Inl err"
  by (simp add: read_phase_def)

lemma read_phase_first_error:
  assumes "readObjectSize a kr = Inr startSize"
    and "\<forall>o1\<in>set objs. ns o1 = ns seed"
    and "\<forall>j. 1 \<le> j \<and> j \<le> int (length objs) \<longrightarrow> BatchSize conf \<noteq> j"
    and "fst (apply_run a (fresh_overlay kr) startSize (seed # objs)) = Inl err"
  shows "read_phase conf a seed (map Item objs @ ch) kr = Inl err"
proof -
  from assms(2) have "\<forall>o1\<in>set (seed # objs). ns o1 = ns seed" by simp
  from handleBatch_loop_first_error [OF this assms(4) assms(3)]
  have "fst (handleBatch conf a (fresh_overlay kr) startSize seed (map Item objs @ ch)) = Inl err"
    by (simp add: handleBatch_def)
  then obtain kw1 ch1 where
    "handleBatch conf a (fresh_overlay kr) startSize seed (map Item objs @ ch) = (Inl err, kw1, ch1)"
    by (cases "handleBatch conf a (fresh_overlay kr) startSize seed (map Item objs @ ch)") auto
  with assms(1) show ?thesis
    by (simp add: read_phase_def)
qed

text \<open>
  C2 (amended): \<open>QueueMutation\<close> puts the mutation at the end of the channel and
  returns nil; it hands out no promise and does not wait for the mutation to be applied.
  When the size of the namespace cannot be read, or when a mutation of the batch fails to
  apply (the seed or any item of the same namespace that the batch reaches), the
  read-only scope ends in that first error: the consumer opens no read-write scope,
  leaves the database as it was and ends the process with the error.
\<close>

theorem C2_queue_returns_nil_first_error_is_fatal:
  "QueueMutation ch nsp m = (ch @ [Item \<lparr>ns = nsp, mut = m\<rparr>], None)
   \<and> (readObjectSize a (kwGet W (db st (ns seed1))) = Inl err
        \<longrightarrow> consume_loop conf W a (Some seed1) ch1 st
              = st\<lparr>scopes := scopes st @ [ReadOnlyScope (ns seed1)], fatal := Some err\<rparr>)
   \<and> (readObjectSize a (kwGet W (db st (ns seed1))) = Inr startSize
        \<and> (\<forall>o1\<in>set objs. ns o1 = ns seed1)
        \<and> (\<forall>j. 1 \<le> j \<and> j \<le> int (length objs) \<longrightarrow> BatchSize conf \<noteq> j)
        \<and> fst (apply_run a (fresh_overlay (kwGet W (db st (ns seed1)))) startSize (seed1 # objs)) = Inl err
        \<longrightarrow> consume_loop conf W a (Some seed1) (map Item objs @ ch1) st
              = st\<lparr>scopes := scopes st @ [ReadOnlyScope (ns seed1)], fatal := Some err\<rparr>)
   \<and> (ExecuteReadOnly (\<lambda>nsp. kwGet W (db st nsp)) (ns seed1) (read_phase conf a seed1 ch1) = Inl err
        \<longrightarrow> consume_loop conf W a (Some seed1) ch1 st
              = st\<lparr>scopes := scopes st @ [ReadOnlyScope (ns seed1)], fatal := Some err\<rparr>)"
proof -
  have one: "QueueMutation ch nsp m = (ch @ [Item \<lparr>ns = nsp, mut = m\<rparr>], None)"
    by (simp add: QueueMutation_def)
  have four: "consume_loop conf W a (Some seed1) ch2 st
              = st\<lparr>scopes := scopes st @ [ReadOnlyScope (ns seed1)], fatal := Some err\<rparr>"
    if "ExecuteReadOnly (\<lambda>nsp. kwGet W (db st nsp)) (ns seed1) (read_phase conf a seed1 ch2) = Inl err"
    for ch2
    using that by (simp add: consume_loop_Some)
  have two: "consume_loop conf W a (Some seed1) ch1 st
              = st\<lparr>scopes := scopes st @ [ReadOnlyScope (ns seed1)], fatal := Some err\<rparr>"
    if "readObjectSize a (kwGet W (db st (ns seed1))) = Inl err"
    using read_phase_size_error [OF that] by (intro four) (simp add: ExecuteReadOnly_def)
  have three: "consume_loop conf W a (Some seed1) (map Item objs @ ch1) st
              = st\<lparr>scopes := scopes st @ [ReadOnlyScope (ns seed1)], fatal := Some err\<rparr>"
    if "readObjectSize a (kwGet W (db st (ns seed1))) = Inr startSize"
      and "\<forall>o1\<in>set objs. ns o1 = ns seed1"
      and "\<forall>j. 1 \<le> j \<and> j \<le> int (length objs) \<longrightarrow> BatchSize conf \<noteq> j"
      and "fst (apply_run a (fresh_overlay (kwGet W (db st (ns seed1)))) startSize (seed1 # objs)) = Inl err"
    using read_phase_first_error [OF that] by (intro four) (simp add: ExecuteReadOnly_def)
  from one two three four [of ch1] show ?thesis by blast
qed

theorem C2_queue_returns_nil_first_error_is_fatal_witness:
  "QueueMutation [Item item_a] [0x0A] Reject = ([Item item_a, Item item_bad], None)
   \<and> readObjectSize demo_api (kwGet memory_writer (db idle (ns item_a))) = Inr 0
   \<and> fst (apply_run demo_api (fresh_overlay (kwGet memory_writer (db idle (ns item_a)))) 0 [item_a, item_bad])
       = Inl ErrInvalidRequest
   \<and> consume_loop demo_conf memory_writer demo_api (Some item_a) [Item item_bad] idle
       = \<lparr>db = empty_store, scopes = [ReadOnlyScope [0x0A]], fatal = Some ErrInvalidRequest\<rparr>
   \<and> readObjectSize unreadable_api (kwGet memory_writer (db idle (ns item_a))) = Inl (ErrOther ''size unreadable'')
   \<and> consume_loop demo_conf memory_writer unreadable_api (Some item_a) [Item item_bad] idle
       = \<lparr>db = empty_store, scopes = [ReadOnlyScope [0x0A]], fatal = Some (ErrOther ''size unreadable'')\<rparr>"
proof -
  let ?kr = "kwGet memory_writer (db idle (ns item_a))"
  have rs: "readObjectSize demo_api ?kr = Inr 0"
    by (simp add: demo_api_def demo_size_def memory_writer_def idle_def empty_store_def)
  have same: "\<forall>o1\<in>set [item_bad]. ns o1 = ns item_a"
    by (simp add: item_a_def item_bad_def)
  have cnt: "\<forall>j. 1 \<le> j \<and> j \<le> int (length [item_bad]) \<longrightarrow> BatchSize demo_conf \<noteq> j"
    by (simp add: demo_conf_def)
  have run: "fst (apply_run demo_api (fresh_overlay ?kr) 0 [item_a, item_bad]) = Inl ErrInvalidRequest"
    by (simp add: demo_api_def item_a_def item_bad_def overlay_writer_def mapNoLockDB_Set_def)
  have ur: "readObjectSize unreadable_api ?kr = Inl (ErrOther ''size unreadable'')"
    by (simp add: unreadable_api_def)
  note inst = C2_queue_returns_nil_first_error_is_fatal
                [of "[Item item_a]" "[0x0A]" Reject demo_api memory_writer idle item_a ErrInvalidRequest
                    demo_conf "[]" 0 "[item_bad]"]
  from inst have q: "QueueMutation [Item item_a] [0x0A] Reject = ([Item item_a, Item \<lparr>ns = [0x0A], mut = Reject\<rparr>], None)"
    by simp
  from inst rs same cnt run
  have c: "consume_loop demo_conf memory_writer demo_api (Some item_a) (map Item [item_bad] @ []) idle
       = idle\<lparr>scopes := scopes idle @ [ReadOnlyScope (ns item_a)], fatal := Some ErrInvalidRequest\<rparr>"
    by blast
  from C2_queue_returns_nil_first_error_is_fatal
         [of "[]" "[]" Reject unreadable_api memory_writer idle item_a "ErrOther ''size unreadable''"
             demo_conf "[Item item_bad]" 0 "[]"] ur
  have u: "consume_loop demo_conf memory_writer unreadable_api (Some item_a) [Item item_bad] idle
       = idle\<lparr>scopes := scopes idle @ [ReadOnlyScope (ns item_a)], fatal := Some (ErrOther ''size unreadable'')\<rparr>"
    by blast
  from q c u rs run ur show ?thesis
    by (simp add: idle_def item_a_def item_bad_def)
qed


lemma replay_single: "replay W [o1] kv = kwSet W kv (Bucket o1) (Key o1) (Value o1)"
  by (simp split: prod.splits option.splits)










text \<open>
  \<open>consume\<close> tests the sizes, not the replay list, so the contract of the applier is
  needed: \<open>demo_apply\<close> is outside it (its \<open>Annotate\<close> stores and leaves the size),
  and there a write stays in the overlay while no read-write scope is opened.
\<close>

lemma size_guard_outside_contract:
  "batch_writes (read_phase demo_conf demo_api item_note [] (kwGet memory_writer []))
     = Inr (0, 0, [\<lparr>Key = [0], Bucket = [2], Value = [0x61]\<rparr>])
   \<and> scopes (consume demo_conf memory_writer demo_api [Item item_note] empty_store) = [ReadOnlyScope [0x0A]]
   \<and> db (consume demo_conf memory_writer demo_api [Item item_note] empty_store) [0x0A] = []
   \<and> fatal (consume demo_conf memory_writer demo_api [Item item_note] empty_store) = None"
  by code_simp

section \<open>Theorems: the instant mutator\<close>

text \<open>
  C7 (as the claim states it, refuted): for the mutation \<open>Reject\<close> the instant
  mutator's promise yields \<open>ErrInvalidRequest\<close> and the process goes on. The batch
  mutator with \<open>BatchSize = 1\<close> and \<open>Timeout = 0\<close> answers the same call with nil,
  hands out no promise, and its consumer ends the process with the error.
\<close>

theorem C7_instant_is_not_batch_of_one_counterexample:
  "WaitUntilDone (fst (snd (InstantMutator_QueueMutation memory_writer demo_apply_instant empty_store [0x0A] Reject)))
     = Some ErrInvalidRequest
   \<and> snd (snd (InstantMutator_QueueMutation memory_writer demo_apply_instant empty_store [0x0A] Reject)) = None
   \<and> fst (batch_of_one memory_writer demo_api empty_store [0x0A] Reject) = None
   \<and> fatal (snd (batch_of_one memory_writer demo_api empty_store [0x0A] Reject)) = Some ErrInvalidRequest
   \<and> WaitUntilDone (fst (snd (InstantMutator_QueueMutation memory_writer demo_apply_instant empty_store [0x0A] Reject)))
     \<noteq> fst (batch_of_one memory_writer demo_api empty_store [0x0A] Reject)"
  by code_simp

text \<open>
  C7 (amended): the instant mutator's \<open>QueueMutation\<close> applies the mutation inside a
  read-write scope of its own and returns a promise and a nil error; the promise's
  \<open>WaitUntilDone\<close> yields exactly the error (or nil) of that transaction. The writes
  are committed when the mutation applied without error and discarded otherwise.
\<close>

theorem C7_instant_promise_is_transaction_result:
  "snd (snd (InstantMutator_QueueMutation W apply_mut store nsp m)) = None
   \<and> WaitUntilDone (fst (snd (InstantMutator_QueueMutation W apply_mut store nsp m)))
       = snd (ExecuteUpdate store nsp (run_on_writer W (apply_mut m)))
   \<and> fst (InstantMutator_QueueMutation W apply_mut store nsp m)
       = fst (ExecuteUpdate store nsp (run_on_writer W (apply_mut m)))
   \<and> ExecuteUpdate store nsp (run_on_writer W (apply_mut m))
       = (case snd (run_on_writer W (apply_mut m) (store nsp)) of
            None \<Rightarrow> (store(nsp := fst (run_on_writer W (apply_mut m) (store nsp))), None)
          | Some err \<Rightarrow> (store, Some err))"
  by (simp add: InstantMutator_QueueMutation_def WaitUntilDone_def ExecuteUpdate_def
      split: prod.splits option.splits)

section \<open>Theorems: LogCreate\<close>

text \<open>
  C10: for an authorized request, \<open>LogCreate\<close> returns \<open>ErrInvalidRequest\<close> exactly
  when the log's type is not \<open>STRUCT_TYPE_LOG\<close> or its name is empty, and then nothing
  is queued. Otherwise it queues the mutation that carries the request, and succeeds
  exactly when \<open>QueueMutation\<close> returns a promise and the promise completes without
  error. The mutator's errors are passed through unchanged, so the mutator is taken not
  to report \<open>ErrInvalidRequest\<close> itself.
\<close>

theorem C10_log_create_invalid_request_iff:
  assumes "verifyAccessForLog s (cLog req) PERM_LOG_CREATE = None"
    and "snd (Mutator_QueueMutation s ms (Mutation_LogCreate req)) \<noteq> Inl ErrInvalidRequest"
    and "\<forall>p. snd (Mutator_QueueMutation s ms (Mutation_LogCreate req)) = Inr p
           \<longrightarrow> Promise_WaitUntilDone s p \<noteq> Some ErrInvalidRequest"
  shows "(snd (LogCreate s ms req) = Inl ErrInvalidRequest
            \<longleftrightarrow> LogType (cLog req) \<noteq> STRUCT_TYPE_LOG \<or> Name (cLog req) = [])
         \<and> (LogType (cLog req) \<noteq> STRUCT_TYPE_LOG \<or> Name (cLog req) = [] \<longrightarrow> fst (LogCreate s ms req) = ms)
         \<and> (LogType (cLog req) = STRUCT_TYPE_LOG \<and> Name (cLog req) \<noteq> [] \<longrightarrow>
              fst (LogCreate s ms req) = fst (Mutator_QueueMutation s ms (Mutation_LogCreate req))
              \<and> (snd (LogCreate s ms req) = Inr LogCreateResponse
                   \<longleftrightarrow> (\<exists>p. snd (Mutator_QueueMutation s ms (Mutation_LogCreate req)) = Inr p
                            \<and> Promise_WaitUntilDone s p = None)))"
proof -
  obtain ms1 r1 where q: "Mutator_QueueMutation s ms (Mutation_LogCreate req) = (ms1, r1)"
    by (cases "Mutator_QueueMutation s ms (Mutation_LogCreate req)")
  from assms(2) q have r1: "r1 \<noteq> Inl ErrInvalidRequest" by simp
  show ?thesis
  proof (cases "LogType (cLog req) \<noteq> STRUCT_TYPE_LOG \<or> Name (cLog req) = []")
    case True
    then show ?thesis using assms(1) by (auto simp: LogCreate_def)
  next
    case False
    then have valid: "LogType (cLog req) = STRUCT_TYPE_LOG" "Name (cLog req) \<noteq> []" by auto
    show ?thesis
    proof (cases r1)
      case (Inl err)
      with r1 have "err \<noteq> ErrInvalidRequest" by simp
      with Inl q valid assms(1) show ?thesis by (simp add: LogCreate_def)
    next
      case (Inr p)
      show ?thesis
      proof (cases "Promise_WaitUntilDone s p")
        case None
        with Inr q valid assms(1) show ?thesis by (simp add: LogCreate_def)
      next
        case (Some err)
        with assms(3) q Inr have "err \<noteq> ErrInvalidRequest" by auto
        with Some Inr q valid assms(1) show ?thesis by (simp add: LogCreate_def)
      qed
    qed
  qed
qed

theorem C10_log_create_invalid_request_iff_witness:
  "LogCreate recording_service [] \<lparr>cLog = plain_log\<rparr>
     = ([Mutation_LogCreate \<lparr>cLog = plain_log\<rparr>], Inr LogCreateResponse)
   \<and> snd (LogCreate recording_service [] \<lparr>cLog = \<lparr>Name = [], LogType = STRUCT_TYPE_LOG\<rparr>\<rparr>) = Inl ErrInvalidRequest
   \<and> fst (LogCreate recording_service [] \<lparr>cLog = \<lparr>Name = [], LogType = STRUCT_TYPE_LOG\<rparr>\<rparr>) = []"
proof -
  let ?bad = "\<lparr>cLog = \<lparr>Name = [], LogType = STRUCT_TYPE_LOG\<rparr>\<rparr>"
  let ?good = "\<lparr>cLog = plain_log\<rparr>"
  have auth: "verifyAccessForLog recording_service (cLog r) PERM_LOG_CREATE = None" for r
    by (simp add: recording_service_def)
  have nq: "snd (Mutator_QueueMutation recording_service [] (Mutation_LogCreate r)) \<noteq> Inl ErrInvalidRequest" for r
    by (simp add: recording_service_def)
  have nw: "\<forall>p. snd (Mutator_QueueMutation recording_service [] (Mutation_LogCreate r)) = Inr p
               \<longrightarrow> Promise_WaitUntilDone recording_service p \<noteq> Some ErrInvalidRequest" for r
    by (simp add: recording_service_def WaitUntilDone_def)
  have q: "Mutator_QueueMutation recording_service [] (Mutation_LogCreate ?good)
             = ([Mutation_LogCreate ?good], Inr \<lparr>Err = None\<rparr>)"
    by (simp add: recording_service_def)
  have w: "Promise_WaitUntilDone recording_service \<lparr>Err = None\<rparr> = None"
    by (simp add: recording_service_def WaitUntilDone_def)
  have valid: "LogType (cLog ?good) = STRUCT_TYPE_LOG \<and> Name (cLog ?good) \<noteq> []"
    by (simp add: plain_log_def)
  from C10_log_create_invalid_request_iff [OF auth nq nw, of ?good] valid q w
  have "fst (LogCreate recording_service [] ?good) = [Mutation_LogCreate ?good]"
    and "snd (LogCreate recording_service [] ?good) = Inr LogCreateResponse"
    by simp_all
  then have good: "LogCreate recording_service [] ?good = ([Mutation_LogCreate ?good], Inr LogCreateResponse)"
    by (simp add: prod_eq_iff)
  have invalid: "LogType (cLog ?bad) \<noteq> STRUCT_TYPE_LOG \<or> Name (cLog ?bad) = []"
    by simp
  from C10_log_create_invalid_request_iff [OF auth nq nw, of ?bad] invalid
  have "snd (LogCreate recording_service [] ?bad) = Inl ErrInvalidRequest"
    and "fst (LogCreate recording_service [] ?bad) = []"
    by blast+
  with good show ?thesis by blast
qed

section \<open>Theorems: the map client\<close>

lemma parse_commad_Returned:
  assumes "parse_commad lib prv commad = Returned prv'"
  shows "prv' = prv
         \<or> (\<exists>idx bs. entry_of lib commad = Some (idx, bs) \<and> 0 \<le> idx \<and> idx < 256
                \<and> nat idx < length prv \<and> prv' = prv[nat idx := Some bs])"
  using assms
  by (auto simp: parse_commad_def entry_of_def Let_def split: if_splits sum.splits)

lemma parse_commad_big_index:
  assumes "entry_of lib commad = Some (idx, bs)" and "256 \<le> idx"
  shows "parse_commad lib prv commad = Returned prv"
  using assms
  by (auto simp: parse_commad_def entry_of_def Let_def split: if_splits sum.splits)

lemma parse_commad_length: "parse_commad lib prv commad = Returned prv' \<Longrightarrow> length prv' = length prv"
  by (auto dest: parse_commad_Returned)

lemma parse_commad_nth:
  assumes "parse_commad lib prv commad = Returned prv'" and "i < length prv"
  shows "prv' ! i = prv ! i \<or> (\<exists>bs. entry_of lib commad = Some (int i, bs) \<and> prv' ! i = Some bs)"
proof -
  from parse_commad_Returned [OF assms(1)] show ?thesis
  proof
    assume "prv' = prv"
    then show ?thesis by simp
  next
    assume "\<exists>idx bs. entry_of lib commad = Some (idx, bs) \<and> 0 \<le> idx \<and> idx < 256
                \<and> nat idx < length prv \<and> prv' = prv[nat idx := Some bs]"
    then obtain idx bs where e: "entry_of lib commad = Some (idx, bs)" and nn: "0 \<le> idx"
      and upd: "prv' = prv[nat idx := Some bs]" by blast
    show ?thesis
    proof (cases "nat idx = i")
      case True
      with nn have "idx = int i" by simp
      with e upd assms(2) True show ?thesis by simp
    next
      case False
      with upd show ?thesis by simp
    qed
  qed
qed

lemma parse_parts_length: "parse_parts lib prv parts = Returned prv' \<Longrightarrow> length prv' = length prv"
proof (induction parts arbitrary: prv)
  case Nil
  then show ?case by simp
next
  case (Cons c parts)
  then show ?case
    by (auto split: outcome.splits dest: parse_commad_length)
qed

lemma parse_parts_nth:
  assumes "parse_parts lib prv parts = Returned prv'" and "i < length prv"
  shows "prv' ! i = prv ! i
         \<or> (\<exists>commad\<in>set parts. \<exists>bs. entry_of lib commad = Some (int i, bs) \<and> prv' ! i = Some bs)"
  using assms
proof (induction parts arbitrary: prv)
  case Nil
  then show ?case by simp
next
  case (Cons c parts)
  from Cons.prems(1) obtain prv1 where c: "parse_commad lib prv c = Returned prv1"
    and rest: "parse_parts lib prv1 parts = Returned prv'"
    by (auto split: outcome.splits)
  from c Cons.prems(2) have len: "i < length prv1" by (simp add: parse_commad_length)
  from Cons.IH [OF rest len]
  have "prv' ! i = prv1 ! i
        \<or> (\<exists>commad\<in>set parts. \<exists>bs. entry_of lib commad = Some (int i, bs) \<and> prv' ! i = Some bs)" .
  moreover from parse_commad_nth [OF c Cons.prems(2)]
  have "prv1 ! i = prv ! i \<or> (\<exists>bs. entry_of lib c = Some (int i, bs) \<and> prv1 ! i = Some bs)" .
  ultimately show ?case by auto
qed

lemma parse_headers_length: "parse_headers lib prv hs = Returned prv' \<Longrightarrow> length prv' = length prv"
proof (induction hs arbitrary: prv)
  case Nil
  then show ?case by simp
next
  case (Cons h hs)
  then show ?case
    by (auto split: outcome.splits dest: parse_parts_length)
qed

lemma parse_headers_nth:
  assumes "parse_headers lib prv hs = Returned prv'" and "i < length prv"
  shows "prv' ! i = prv ! i
         \<or> (\<exists>commad\<in>set (concat (map (\<lambda>h. Split h (CHR '','')) hs)). \<exists>bs.
               entry_of lib commad = Some (int i, bs) \<and> prv' ! i = Some bs)"
  using assms
proof (induction hs arbitrary: prv)
  case Nil
  then show ?case by simp
next
  case (Cons h hs)
  from Cons.prems(1) obtain prv1 where h: "parse_parts lib prv (Split h (CHR '','')) = Returned prv1"
    and rest: "parse_headers lib prv1 hs = Returned prv'"
    by (auto split: outcome.splits)
  from h Cons.prems(2) have len: "i < length prv1" by (simp add: parse_parts_length)
  from Cons.IH [OF rest len]
  have "prv' ! i = prv1 ! i
        \<or> (\<exists>commad\<in>set (concat (map (\<lambda>h. Split h (CHR '','')) hs)). \<exists>bs.
              entry_of lib commad = Some (int i, bs) \<and> prv' ! i = Some bs)" .
  moreover from parse_parts_nth [OF h Cons.prems(2)]
  have "prv1 ! i = prv ! i
        \<or> (\<exists>commad\<in>set (Split h (CHR '','')). \<exists>bs. entry_of lib commad = Some (int i, bs) \<and> prv1 ! i = Some bs)" .
  ultimately show ?case by auto
qed

lemma parseHeadersForProof_Returned:
  assumes "parseHeadersForProof lib headers = Returned prv"
  shows "length prv = 256"
    and "i < 256 \<Longrightarrow> prv ! i = None
           \<or> (\<exists>commad\<in>set (header_parts headers). \<exists>bs. entry_of lib commad = Some (int i, bs) \<and> prv ! i = Some bs)"
proof -
  show "length prv = 256"
    using assms
    by (auto simp: parseHeadersForProof_def Let_def split: option.splits dest: parse_headers_length)
  assume i: "i < 256"
  show "prv ! i = None
           \<or> (\<exists>commad\<in>set (header_parts headers). \<exists>bs. entry_of lib commad = Some (int i, bs) \<and> prv ! i = Some bs)"
  proof (cases "headers (CanonicalHeaderKey ''X-Verified-Proof'')")
    case None
    with assms i show ?thesis by (auto simp: parseHeadersForProof_def Let_def)
  next
    case (Some hs)
    with assms have "parse_headers lib (replicate 256 None) hs = Returned prv"
      by (simp add: parseHeadersForProof_def Let_def)
    from parse_headers_nth [OF this, of i] i Some show ?thesis
      by (simp add: header_parts_def)
  qed
qed

text \<open>
  C9: when \<open>Get\<close> returns a proof, its \<open>AuditPath\<close> has exactly 256 entries; an entry
  is either absent (nil) or the bytes of a part of the \<open>X-Verified-Proof\<close> header that
  carries its index; and a part whose index is 256 or greater leaves the path as it is.
  (A part with a negative index makes \<open>prv[idx] = bs\<close> panic, so \<open>Get\<close> does not
  return then.)
\<close>

theorem C9_audit_path_has_256_entries:
  assumes "verifiableMapImpl_Get lib MakeRequest key treeSize factory = Returned proof"
  shows "length (AuditPath proof) = 256
         \<and> (\<exists>val headers.
               MakeRequest ''GET''
                 (''/tree/'' @ FormatInt lib (sint treeSize) @ ''/key/h/'' @ EncodeToString key @ Format factory)
                 = Inr (val, headers)
               \<and> (\<forall>i<256. AuditPath proof ! i = None
                     \<or> (\<exists>commad\<in>set (header_parts headers). \<exists>bs.
                           entry_of lib commad = Some (int i, bs) \<and> AuditPath proof ! i = Some bs)))
         \<and> (\<forall>prv commad idx bs.
               entry_of lib commad = Some (idx, bs) \<and> 256 \<le> idx
                 \<longrightarrow> parse_commad lib prv commad = Returned prv)"
proof -
  from assms obtain val headers prv where
    mk: "MakeRequest ''GET''
           (''/tree/'' @ FormatInt lib (sint treeSize) @ ''/key/h/'' @ EncodeToString key @ Format factory)
           = Inr (val, headers)"
    and ph: "parseHeadersForProof lib headers = Returned prv"
    and ap: "AuditPath proof = prv"
    by (auto simp: verifiableMapImpl_Get_def split: sum.splits outcome.splits prod.splits)
  from parseHeadersForProof_Returned(1) [OF ph] ap have one: "length (AuditPath proof) = 256"
    by simp
  from parseHeadersForProof_Returned(2) [OF ph] ap
  have two: "\<forall>i<256. AuditPath proof ! i = None
                     \<or> (\<exists>commad\<in>set (header_parts headers). \<exists>bs.
                           entry_of lib commad = Some (int i, bs) \<and> AuditPath proof ! i = Some bs)"
    by simp
  have three: "\<forall>prv commad idx bs.
               entry_of lib commad = Some (idx, bs) \<and> 256 \<le> idx
                 \<longrightarrow> parse_commad lib prv commad = Returned prv"
    by (auto intro: parse_commad_big_index)
  from one mk two three show ?thesis by blast
qed

theorem C9_audit_path_has_256_entries_witness:
  "verifiableMapImpl_Get ascii_lib proof_transport [0x6b] 1 raw_factory = Returned expected_proof
   \<and> length (AuditPath expected_proof) = 256
   \<and> AuditPath expected_proof ! 0 = Some [0xab]
   \<and> AuditPath expected_proof ! 1 = None
   \<and> entry_of ascii_lib '' 300/cd'' = Some (300, [0xcd])
   \<and> parse_commad ascii_lib (AuditPath expected_proof) '' 300/cd'' = Returned (AuditPath expected_proof)"
proof -
  have get: "verifiableMapImpl_Get ascii_lib proof_transport [0x6b] 1 raw_factory = Returned expected_proof"
    by code_simp
  have big: "entry_of ascii_lib '' 300/cd'' = Some (300, [0xcd])"
    by code_simp
  have nth: "AuditPath expected_proof ! 0 = Some [0xab]" "AuditPath expected_proof ! 1 = None"
    by code_simp+
  from C9_audit_path_has_256_entries [OF get]
  have len: "length (AuditPath expected_proof) = 256"
    and ign: "\<forall>prv commad idx bs.
               entry_of ascii_lib commad = Some (idx, bs) \<and> 256 \<le> idx
                 \<longrightarrow> parse_commad ascii_lib prv commad = Returned prv"
    by blast+
  from ign big have "parse_commad ascii_lib (AuditPath expected_proof) '' 300/cd'' = Returned (AuditPath expected_proof)"
    by simp
  with get len nth big show ?thesis by blast
qed

end
